theory Spec2Isabelle
  imports Main "HOL-Library.Multiset"
begin

section \<open>The bounded-concurrency task queue (\<open>AsyncQueue\<close>)\<close>

text \<open>
  The source is the class \<open>AsyncQueue\<close>: a backlog of task entries sorted by
  priority, a counter of running tasks bounded by \<open>concurrency\<close>, a pause
  flag and a list of callbacks waiting for the queue to drain.

  JavaScript runs one synchronous segment at a time, so every method of the
  class and every promise reaction is one atomic step of the model. A run is a
  list of events; each event is one such segment.
\<close>

subsection \<open>Data\<close>

text \<open>
  A task is known to the queue only as a callable; here it is an identifier.
  What the task produces arrives later, with the event that ends it: a result
  value or a failure (a thrown error or a rejected promise).
\<close>

datatype outcome = Result nat | Failure nat

text \<open>The promise returned by \<open>add\<close>: pending, or settled one way or the other.\<close>

datatype promise = Pending | Fulfilled nat | Rejected nat

text \<open>
  The entry built by \<open>add\<close>. Its \<open>resolve\<close> and \<open>reject\<close> functions are
  the two capabilities of one promise; \<open>handle\<close> is the index of that promise in
  the store \<open>promises\<close>.
\<close>

record entry =
  task :: nat
  priority :: int
  handle :: nat

text \<open>
  The promise chain that \<open>_process\<close> attaches to a dispatched entry has two
  moments that touch the queue or the handle: the reaction that calls
  \<open>entry.resolve\<close> or \<open>entry.reject\<close>, and, at least one microtask later, the
  \<open>finally\<close> reaction. A chain is \<open>Working\<close> until the first and \<open>Settled\<close>
  between the two.
\<close>

datatype phase = Working | Settled

text \<open>
  What an observer of a run can see, in the order it happens. The trace is
  only ever appended to; no operation reads it.
\<close>

datatype obs =
    Dispatch entry
  | Settle nat outcome
  | Invoke nat nat int
  | Discard entry
  | Drop nat

text \<open>
  The first six fields are the fields of the class. \<open>promises\<close> and \<open>chains\<close>
  are the part of the JavaScript heap the class creates: the promises returned
  by \<open>add\<close> and the chains started by \<open>_process\<close>. \<open>frames\<close> is the call stack
  of the \<open>forEach\<close> calls of \<open>_checkEmpty\<close> that are in progress: each frame
  holds the callbacks its call has still to invoke, the innermost call first.
\<close>

record state =
  concurrency :: int
  autoStart :: bool
  queue :: "entry list"
  running :: int
  paused :: bool
  emptyCallbacks :: "nat list"
  promises :: "promise list"
  chains :: "(entry \<times> phase) list"
  frames :: "nat list list"
  trace :: "obs list"

record options =
  concurrency_opt :: "int option"
  autoStart_opt :: "bool option"

subsection \<open>Construction\<close>

text \<open>
  \<open>options.concurrency || 1\<close>: a missing or zero limit becomes 1.
  \<open>options.autoStart !== false\<close>: only an explicit \<open>false\<close> disables it.
\<close>

definition constructor :: "options \<Rightarrow> state" where
  "constructor opts =
     \<lparr> concurrency = (case concurrency_opt opts of
                         None \<Rightarrow> 1
                       | Some c \<Rightarrow> if c = 0 then 1 else c),
       autoStart = (autoStart_opt opts \<noteq> Some False),
       queue = [],
       running = 0,
       paused = False,
       emptyCallbacks = [],
       promises = [],
       chains = [],
       frames = [],
       trace = [] \<rparr>"

subsection \<open>Introspection\<close>

definition size_get :: "state \<Rightarrow> nat" where
  "size_get s = length (queue s)"

definition pending :: "state \<Rightarrow> int" where
  "pending s = running s"

definition isPaused :: "state \<Rightarrow> bool" where
  "isPaused s = paused s"

subsection \<open>Sorting the backlog\<close>

text \<open>
  \<open>this.queue.sort((a, b) => b.priority - a.priority)\<close>. The comparator is
  negative when \<open>a\<close> has to come first. \<open>Array.prototype.sort\<close> is stable
  (ECMAScript 2019; the repository asks for Node 16 or later), and for a
  consistent comparator the stable result is unique: it is the one an insertion
  sort produces that puts each element before the first element it does not have
  to follow.
\<close>

definition compare :: "entry \<Rightarrow> entry \<Rightarrow> int" where
  "compare a b = priority b - priority a"

fun insert_sorted :: "('a \<Rightarrow> 'a \<Rightarrow> int) \<Rightarrow> 'a \<Rightarrow> 'a list \<Rightarrow> 'a list" where
  "insert_sorted cmp x [] = [x]"
| "insert_sorted cmp x (y # ys) =
     (if cmp x y \<le> 0 then x # y # ys else y # insert_sorted cmp x ys)"

fun array_sort :: "('a \<Rightarrow> 'a \<Rightarrow> int) \<Rightarrow> 'a list \<Rightarrow> 'a list" where
  "array_sort cmp [] = []"
| "array_sort cmp (x # xs) = insert_sorted cmp x (array_sort cmp xs)"

subsection \<open>The dispatch loop\<close>

text \<open>
  One iteration of the \<open>while\<close> loop of \<open>_process\<close>: \<open>shift\<close> the first entry,
  count it as running and start its chain.
\<close>

definition dispatch :: "entry \<Rightarrow> entry list \<Rightarrow> state \<Rightarrow> state" where
  "dispatch e rest s =
     s \<lparr> queue := rest,
         running := running s + 1,
         chains := chains s @ [(e, Working)],
         trace := trace s @ [Dispatch e] \<rparr>"

function process_loop :: "state \<Rightarrow> state" where
  "process_loop s =
     (if running s < concurrency s \<and> queue s \<noteq> []
      then process_loop (dispatch (hd (queue s)) (tl (queue s)) s)
      else s)"
  by pat_completeness auto
termination
  by (relation "measure (\<lambda>s. length (queue s))") (auto simp: dispatch_def)

declare process_loop.simps [simp del]

definition process :: "state \<Rightarrow> state" where
  "process s = (if paused s then s else process_loop s)"

subsection \<open>Drain notification\<close>

text \<open>
  \<open>callbacks.forEach(item => item())\<close>. A callback is code of the caller and
  may call the queue again before it returns, so the loop is not one atomic
  step: it invokes the first callback now and leaves the rest in a frame. The
  event \<open>Return\<close> (below) continues the loop when the running callback
  returns; the event \<open>Throw\<close> ends it when the running callback throws. The
  observation records what \<open>size\<close> and \<open>pending\<close> read at the moment the
  callback is invoked.
\<close>

definition invoke :: "nat \<Rightarrow> state \<Rightarrow> state" where
  "invoke item s = s \<lparr> trace := trace s @ [Invoke item (size_get s) (pending s)] \<rparr>"

definition forEach :: "nat list \<Rightarrow> state \<Rightarrow> state" where
  "forEach callbacks s =
     (case callbacks of
        [] \<Rightarrow> s
      | item # rest \<Rightarrow> (invoke item s) \<lparr> frames := rest # frames s \<rparr>)"

definition checkEmpty :: "state \<Rightarrow> state" where
  "checkEmpty s =
     (if queue s = [] \<and> running s = 0
      then (let callbacks = emptyCallbacks s
            in forEach callbacks (s \<lparr> emptyCallbacks := [] \<rparr>))
      else s)"

definition onEmpty :: "nat \<Rightarrow> state \<Rightarrow> state" where
  "onEmpty callback s =
     (let s1 = s \<lparr> emptyCallbacks := emptyCallbacks s @ [callback] \<rparr>
      in if queue s1 = [] \<and> running s1 = 0 then checkEmpty s1 else s1)"

subsection \<open>Admission, pause, resume, clear\<close>

text \<open>
  \<open>options.priority || 1\<close>: a missing priority and the priority 0 both become 1.
  The promise that \<open>add\<close> returns is the next free slot of the store.
\<close>

definition add :: "nat \<Rightarrow> int option \<Rightarrow> state \<Rightarrow> nat \<times> state" where
  "add t prio s =
     (let h = length (promises s);
          e = \<lparr> task = t,
                priority = (case prio of
                              None \<Rightarrow> 1
                            | Some p \<Rightarrow> if p = 0 then 1 else p),
                handle = h \<rparr>;
          s1 = s \<lparr> promises := promises s @ [Pending] \<rparr>;
          s2 = s1 \<lparr> queue := queue s1 @ [e] \<rparr>;
          s3 = s2 \<lparr> queue := array_sort compare (queue s2) \<rparr>
      in (h, if autoStart s3 \<and> \<not> paused s3 then process s3 else s3))"

definition start :: "state \<Rightarrow> state" where
  "start s = process (s \<lparr> paused := False \<rparr>)"

definition pause :: "state \<Rightarrow> state" where
  "pause s = s \<lparr> paused := True \<rparr>"

definition clear :: "state \<Rightarrow> state" where
  "clear s = s \<lparr> queue := [], trace := trace s @ map Discard (queue s) \<rparr>"

subsection \<open>The reactions of a chain\<close>

text \<open>
  Settling a promise that is already settled does nothing.
\<close>

definition settle :: "outcome \<Rightarrow> promise \<Rightarrow> promise" where
  "settle out p =
     (if p = Pending
      then (case out of Result v \<Rightarrow> Fulfilled v | Failure err \<Rightarrow> Rejected err)
      else p)"

text \<open>
  \<open>.then(result => entry.resolve(result)).catch(err => entry.reject(err))\<close>:
  the task of the chain at position \<open>i\<close> has ended with \<open>out\<close>.
\<close>

definition taskDone :: "nat \<Rightarrow> outcome \<Rightarrow> state \<Rightarrow> state" where
  "taskDone i out s =
     (let e = fst (chains s ! i)
      in s \<lparr> promises := (promises s)[handle e := settle out (promises s ! handle e)],
             chains := (chains s)[i := (e, Settled)],
             trace := trace s @ [Settle (handle e) out] \<rparr>)"

text \<open>
  \<open>.finally(() => { this.running--; this._process(); this._checkEmpty(); })\<close>
  for the chain at position \<open>i\<close>, which ends with it.
\<close>

definition chainFinally :: "nat \<Rightarrow> state \<Rightarrow> state" where
  "chainFinally i s =
     (let s1 = s \<lparr> chains := take i (chains s) @ drop (Suc i) (chains s) \<rparr>;
          s2 = s1 \<lparr> running := running s1 - 1 \<rparr>;
          s3 = process s2
      in checkEmpty s3)"

subsection \<open>Runs\<close>

text \<open>
  The events of a run. The five calls of the public interface can come at any
  time: from the harness, from a task, or from a drain callback that is running
  (\<open>frames\<close> is then not empty). \<open>TaskDone h out\<close> and \<open>Finally h\<close> are the two
  reactions of the chain of the entry with handle \<open>h\<close>; reactions are
  microtasks, so they run only when no callback is on the stack. \<open>Return\<close> is
  the return of the running drain callback: its \<open>forEach\<close> loop invokes the next
  callback, or ends when none is left. \<open>Throw\<close> is an exception leaving the
  running drain callback: \<open>forEach\<close> does not catch it, so the callbacks left
  in the frame are never invoked (\<open>emptyCallbacks\<close> was emptied before the
  loop), and the exception goes on to the caller of \<open>_checkEmpty\<close>: the
  \<open>finally\<close> reaction, or \<open>onEmpty\<close> and whoever called it. When that is an
  outer drain callback, it catches the exception and goes on, or lets it pass,
  which is the next \<open>Throw\<close>.
\<close>

datatype event =
    Add nat "int option"
  | Start
  | Pause
  | Clear
  | OnEmpty nat
  | TaskDone nat outcome
  | Finally nat
  | Return
  | Throw

fun find_chain :: "nat \<Rightarrow> phase \<Rightarrow> (entry \<times> phase) list \<Rightarrow> nat option" where
  "find_chain h ph [] = None"
| "find_chain h ph (c # cs) =
     (if handle (fst c) = h \<and> snd c = ph then Some 0
      else map_option Suc (find_chain h ph cs))"

fun step :: "event \<Rightarrow> state \<Rightarrow> state option" where
  "step (Add t prio) s = Some (snd (add t prio s))"
| "step Start s = Some (start s)"
| "step Pause s = Some (pause s)"
| "step Clear s = Some (clear s)"
| "step (OnEmpty callback) s = Some (onEmpty callback s)"
| "step (TaskDone h out) s =
     (if frames s \<noteq> [] then None
      else map_option (\<lambda>i. taskDone i out s) (find_chain h Working (chains s)))"
| "step (Finally h) s =
     (if frames s \<noteq> [] then None
      else map_option (\<lambda>i. chainFinally i s) (find_chain h Settled (chains s)))"
| "step Return s =
     (case frames s of
        [] \<Rightarrow> None
      | [] # outer \<Rightarrow> Some (s \<lparr> frames := outer \<rparr>)
      | (item # rest) # outer \<Rightarrow> Some ((invoke item s) \<lparr> frames := rest # outer \<rparr>))"
| "step Throw s =
     (case frames s of
        [] \<Rightarrow> None
      | rest # outer \<Rightarrow> Some (s \<lparr> frames := outer, trace := trace s @ map Drop rest \<rparr>))"

fun run :: "event list \<Rightarrow> state \<Rightarrow> state option" where
  "run [] s = Some s"
| "run (ev # evs) s = (case step ev s of None \<Rightarrow> None | Some s' \<Rightarrow> run evs s')"

text \<open>
  Projections of the trace, oldest first: the entries dispatched, the handles
  settled with their outcomes, the entries discarded by \<open>clear\<close>, the drain
  callbacks invoked with the readings of \<open>size\<close> and \<open>pending\<close> at that moment,
  and the drain callbacks lost to an exception.
\<close>

fun dispatched :: "obs list \<Rightarrow> entry list" where
  "dispatched [] = []"
| "dispatched (Dispatch e # os) = e # dispatched os"
| "dispatched (_ # os) = dispatched os"

fun settled :: "obs list \<Rightarrow> (nat \<times> outcome) list" where
  "settled [] = []"
| "settled (Settle h out # os) = (h, out) # settled os"
| "settled (_ # os) = settled os"

fun discarded :: "obs list \<Rightarrow> entry list" where
  "discarded [] = []"
| "discarded (Discard e # os) = e # discarded os"
| "discarded (_ # os) = discarded os"

fun invoked :: "obs list \<Rightarrow> (nat \<times> nat \<times> int) list" where
  "invoked [] = []"
| "invoked (Invoke c sz pd # os) = (c, sz, pd) # invoked os"
| "invoked (_ # os) = invoked os"

fun dropped :: "obs list \<Rightarrow> nat list" where
  "dropped [] = []"
| "dropped (Drop c # os) = c # dropped os"
| "dropped (_ # os) = dropped os"

section \<open>Notions used in the proofs\<close>

text \<open>
  The number of entries one call of the dispatch loop removes from the backlog:
  as many as there are free slots, and no more than there are entries.
\<close>

definition slots :: "state \<Rightarrow> nat" where
  "slots s = min (nat (concurrency s - running s)) (length (queue s))"

text \<open>The state the dispatch loop ends in, without recursion.\<close>

definition process_result :: "state \<Rightarrow> state" where
  "process_result s =
     s \<lparr> queue := drop (slots s) (queue s),
         running := running s + int (slots s),
         chains := chains s @ map (\<lambda>e. (e, Working)) (take (slots s) (queue s)),
         trace := trace s @ map Dispatch (take (slots s) (queue s)) \<rparr>"

text \<open>
  The counter agrees with the chains that exist and stays within the limit.
\<close>

definition bounded :: "state \<Rightarrow> bool" where
  "bounded s \<longleftrightarrow> running s \<le> concurrency s \<and> running s = int (length (chains s))"

text \<open>The entry that \<open>add\<close> builds, and the state after its \<open>push\<close> and \<open>sort\<close>.\<close>

definition entry_of :: "nat \<Rightarrow> int option \<Rightarrow> state \<Rightarrow> entry" where
  "entry_of t prio s =
     \<lparr> task = t,
       priority = (case prio of None \<Rightarrow> 1 | Some p \<Rightarrow> if p = 0 then 1 else p),
       handle = length (promises s) \<rparr>"

definition admitted :: "nat \<Rightarrow> int option \<Rightarrow> state \<Rightarrow> state" where
  "admitted t prio s =
     s \<lparr> promises := promises s @ [Pending],
         queue := array_sort compare (queue s @ [entry_of t prio s]) \<rparr>"

text \<open>The priorities of the dispatched entries, in dispatch order.\<close>

definition dispatch_priorities :: "state \<Rightarrow> int list" where
  "dispatch_priorities s = map priority (dispatched (trace s))"

text \<open>
  The backlog is sorted by descending priority; among the entries of one
  priority, dispatched or waiting, handles grow, and handles are given out in
  admission order.
\<close>

definition fifo :: "state \<Rightarrow> bool" where
  "fifo s \<longleftrightarrow>
     sorted_wrt (\<lambda>a b. priority b \<le> priority a) (queue s) \<and>
     (\<forall>k. sorted_wrt (<)
        (map handle (filter (\<lambda>e. priority e = k) (dispatched (trace s) @ queue s)))) \<and>
     (\<forall>e \<in> set (dispatched (trace s) @ queue s). handle e < length (promises s))"

text \<open>
  A queue that dispatches on admission never leaves an entry waiting while a
  slot is free.
\<close>

definition eager :: "state \<Rightarrow> bool" where
  "eager s \<longleftrightarrow> (autoStart s \<and> \<not> paused s \<longrightarrow> queue s = [] \<or> concurrency s \<le> running s)"

text \<open>
  Where the handles are. An entry that has been dispatched has a chain until
  its \<open>finally\<close> has run; \<open>working\<close> lists the handles whose task has not ended,
  \<open>finishing\<close> those settled and waiting for \<open>finally\<close>. \<open>holders\<close> collects
  the handles of the backlog, of the working chains, of the settlements and of
  the entries that \<open>clear\<close> discarded. \<open>promise_of\<close> is the state a promise has
  after the given settlement, if any.
\<close>

fun handles_in :: "phase \<Rightarrow> (entry \<times> phase) list \<Rightarrow> nat list" where
  "handles_in ph [] = []"
| "handles_in ph (c # cs) =
     (if snd c = ph then handle (fst c) # handles_in ph cs else handles_in ph cs)"

definition working :: "state \<Rightarrow> nat list" where
  "working s = handles_in Working (chains s)"

definition finishing :: "state \<Rightarrow> nat list" where
  "finishing s = handles_in Settled (chains s)"

definition promise_of :: "outcome option \<Rightarrow> promise" where
  "promise_of r =
     (case r of
        None \<Rightarrow> Pending
      | Some (Result v) \<Rightarrow> Fulfilled v
      | Some (Failure err) \<Rightarrow> Rejected err)"

definition holders :: "state \<Rightarrow> nat multiset" where
  "holders s =
     mset (map handle (queue s)) + mset (working s) + mset (map fst (settled (trace s))) +
     mset (map handle (discarded (trace s)))"

definition ledger :: "state \<Rightarrow> bool" where
  "ledger s \<longleftrightarrow>
     holders s = mset [0..<length (promises s)] \<and>
     mset (map handle (dispatched (trace s))) =
       mset (working s) + mset (map fst (settled (trace s))) \<and>
     mset (finishing s) \<subseteq># mset (map fst (settled (trace s))) \<and>
     (\<forall>h < length (promises s). promises s ! h = promise_of (map_of (settled (trace s)) h))"

text \<open>
  What remains of a state for an observer who does not look at the promise
  \<open>h\<close>: its content and the observations of its settlement are blanked.
\<close>

fun about :: "nat \<Rightarrow> obs \<Rightarrow> bool" where
  "about h (Settle k out) = (k = h)"
| "about h _ = False"

definition ignoring :: "nat \<Rightarrow> state \<Rightarrow> state" where
  "ignoring h s =
     s \<lparr> promises := (promises s)[h := Pending],
         trace := filter (\<lambda>x. \<not> about h x) (trace s) \<rparr>"

text \<open>
  The callbacks registered in a run, and where a registered callback can be:
  invoked, waiting in \<open>emptyCallbacks\<close>, in a \<open>forEach\<close> loop that has not
  reached it yet, or lost to an exception.
\<close>

fun registrations :: "event list \<Rightarrow> nat list" where
  "registrations [] = []"
| "registrations (OnEmpty c # evs) = c # registrations evs"
| "registrations (_ # evs) = registrations evs"

definition tokens :: "state \<Rightarrow> nat multiset" where
  "tokens s =
     mset (map fst (invoked (trace s))) + mset (emptyCallbacks s) + mset (concat (frames s)) +
     mset (dropped (trace s))"

text \<open>
  The priorities asked for in the calls of \<open>add\<close> of a run, in the order of
  the calls. Handles are given out in that order, so the priority asked for the
  entry with handle \<open>h\<close> is at position \<open>h\<close>.
\<close>

fun admissions :: "event list \<Rightarrow> int option list" where
  "admissions [] = []"
| "admissions (Add t prio # evs) = prio # admissions evs"
| "admissions (_ # evs) = admissions evs"

definition recorded :: "int option list \<Rightarrow> state \<Rightarrow> bool" where
  "recorded adm s \<longleftrightarrow>
     length (promises s) = length adm \<and>
     (\<forall>e \<in> set (dispatched (trace s) @ queue s).
        handle e < length adm \<and>
        (adm ! handle e = None \<or> adm ! handle e = Some 0 \<longrightarrow> priority e = 1) \<and>
        (\<forall>p. adm ! handle e = Some p \<and> p \<noteq> 0 \<longrightarrow> priority e = p))"



text \<open>
  A run in which no drain callback calls \<open>add\<close>: every \<open>Add\<close> comes while no
  callback is on the stack.
\<close>

fun calm :: "event list \<Rightarrow> state \<Rightarrow> bool" where
  "calm [] s = True"
| "calm (ev # evs) s =
     ((case ev of Add t prio \<Rightarrow> frames s = [] | _ \<Rightarrow> True) \<and>
      (case step ev s of None \<Rightarrow> True | Some s' \<Rightarrow> calm evs s'))"

text \<open>
  Three invariants of the drain notification. The counter agrees with the
  chains. While a callback runs the queue is still drained, and every callback
  so far was invoked on a drained queue. No callback waits on a drained queue.
\<close>

definition counted :: "state \<Rightarrow> bool" where
  "counted s \<longleftrightarrow> running s = int (length (chains s))"

definition undisturbed :: "state \<Rightarrow> bool" where
  "undisturbed s \<longleftrightarrow>
     (frames s \<noteq> [] \<longrightarrow> queue s = [] \<and> running s = 0) \<and>
     (\<forall>x \<in> set (invoked (trace s)). snd x = (0, 0))"

definition served :: "state \<Rightarrow> bool" where
  "served s \<longleftrightarrow>
     counted s \<and> (queue s = [] \<and> running s = 0 \<longrightarrow> emptyCallbacks s = [])"

section \<open>Basic facts\<close>

subsection \<open>The dispatch loop in closed form\<close>

lemma slots_0: "\<not> (running s < concurrency s \<and> queue s \<noteq> []) \<Longrightarrow> slots s = 0"
  by (auto simp: slots_def)

lemma slots_dispatch:
  "running s < concurrency s \<Longrightarrow> queue s \<noteq> [] \<Longrightarrow>
   slots s = Suc (slots (dispatch (hd (queue s)) (tl (queue s)) s))"
  by (cases "queue s") (auto simp: slots_def dispatch_def min_def)

lemma process_result_dispatch:
  "running s < concurrency s \<Longrightarrow> queue s \<noteq> [] \<Longrightarrow>
   process_result (dispatch (hd (queue s)) (tl (queue s)) s) = process_result s"
  using slots_dispatch [of s]
  by (cases "queue s") (simp_all add: process_result_def dispatch_def drop_Suc)

lemma process_loop_result: "process_loop s = process_result s"
proof (induction s rule: process_loop.induct)
  case (1 s)
  show ?case
  proof (cases "running s < concurrency s \<and> queue s \<noteq> []")
    case True
    then show ?thesis
      using 1 process_result_dispatch [of s] by (simp add: process_loop.simps [of s])
  next
    case False
    then have "process_loop s = s"
      by (subst process_loop.simps) auto
    then show ?thesis
      using slots_0 [of s] False by (simp add: process_result_def)
  qed
qed

lemma process_fields [simp]:
  "concurrency (process s) = concurrency s"
  "autoStart (process s) = autoStart s"
  "paused (process s) = paused s"
  "emptyCallbacks (process s) = emptyCallbacks s"
  "promises (process s) = promises s"
  "frames (process s) = frames s"
  by (simp_all add: process_def process_loop_result process_result_def)

lemma process_paused: "paused s \<Longrightarrow> process s = s"
  by (simp add: process_def)


lemma checkEmpty_fields [simp]:
  "concurrency (checkEmpty s) = concurrency s"
  "autoStart (checkEmpty s) = autoStart s"
  "paused (checkEmpty s) = paused s"
  "queue (checkEmpty s) = queue s"
  "running (checkEmpty s) = running s"
  "promises (checkEmpty s) = promises s"
  "chains (checkEmpty s) = chains s"
  by (simp_all add: checkEmpty_def forEach_def invoke_def split: list.splits)

subsection \<open>Chains and runs\<close>

lemma find_chain_Some:
  "find_chain h ph cs = Some i \<Longrightarrow>
   i < length cs \<and> handle (fst (cs ! i)) = h \<and> snd (cs ! i) = ph"
  by (induction cs arbitrary: i) (auto split: if_splits)

lemma run_invariant:
  assumes "run evs s = Some s'" and "P s"
    and "\<And>ev a b. P a \<Longrightarrow> step ev a = Some b \<Longrightarrow> P b"
  shows "P s'"
  using assms(1,2)
proof (induction evs arbitrary: s)
  case Nil
  then show ?case by simp
next
  case (Cons ev evs)
  then show ?case
    by (auto split: option.splits intro: assms(3))
qed

section \<open>The concurrency limit\<close>

lemma process_bounded: "bounded s \<Longrightarrow> bounded (process s)"
  by (auto simp: bounded_def process_def process_loop_result process_result_def slots_def)

lemma step_bounded: "bounded s \<Longrightarrow> step ev s = Some s' \<Longrightarrow> bounded s'"
proof (cases ev)
  case (Add t prio)
  assume "bounded s" "step ev s = Some s'"
  then show ?thesis
    using Add process_bounded [of "s \<lparr>promises := promises s @ [Pending],
        queue := array_sort compare (queue s @ [\<lparr>task = t, priority = (case prio of None \<Rightarrow> 1 | Some p \<Rightarrow> if p = 0 then 1 else p), handle = length (promises s)\<rparr>])\<rparr>"]
    by (auto simp: add_def Let_def bounded_def)
next
  case Start
  assume "bounded s" "step ev s = Some s'"
  then show ?thesis
    using Start process_bounded [of "s \<lparr>paused := False\<rparr>"]
    by (auto simp: start_def bounded_def)
next
  case (Finally h)
  assume b: "bounded s" and st: "step ev s = Some s'"
  from st Finally obtain i where i: "find_chain h Settled (chains s) = Some i"
    and s': "s' = chainFinally i s"
    by (auto split: if_splits)
  from find_chain_Some [OF i] have "i < length (chains s)" by simp
  with b have "bounded (s \<lparr>chains := take i (chains s) @ drop (Suc i) (chains s),
      running := running s - 1\<rparr>)"
    by (auto simp: bounded_def)
  from process_bounded [OF this] show ?thesis
    by (simp add: s' chainFinally_def Let_def bounded_def)
qed (auto simp: pause_def clear_def onEmpty_def taskDone_def bounded_def Let_def invoke_def
      split: if_splits list.splits)

lemma step_concurrency: "step ev s = Some s' \<Longrightarrow> concurrency s' = concurrency s"
  by (cases ev)
    (auto simp: add_def start_def pause_def clear_def onEmpty_def taskDone_def
      chainFinally_def Let_def invoke_def split: if_splits list.splits)

text \<open>
  Claim C1. A queue constructed with a positive concurrency limit \<open>N\<close> never has
  more than \<open>N\<close> tasks dispatched and not yet finished, whatever calls of
  \<open>add\<close>, \<open>start\<close>, \<open>pause\<close>, \<open>clear\<close> and \<open>onEmpty\<close> and whatever task
  settlements occur: \<open>pending\<close> is at most \<open>N\<close>, and it is the number of chains
  that \<open>_process\<close> has started and that have not yet reached their \<open>finally\<close>.
\<close>

theorem pending_never_exceeds_concurrency:
  assumes "concurrency_opt opts = Some N" and "0 < N"
    and "run evs (constructor opts) = Some s"
  shows "pending s \<le> N \<and> pending s = int (length (chains s))"
proof -
  let ?P = "\<lambda>s. bounded s \<and> concurrency s = N"
  have "?P (constructor opts)"
    using assms(1,2) by (simp add: constructor_def bounded_def)
  with assms(3) have "?P s"
    by (rule run_invariant) (auto dest: step_bounded step_concurrency)
  then show ?thesis
    by (simp add: bounded_def pending_def)
qed

theorem pending_never_exceeds_concurrency_witness:
  "let opts = \<lparr>concurrency_opt = Some 2, autoStart_opt = None\<rparr>;
       s = \<lparr>concurrency = 2, autoStart = True,
            queue = [\<lparr>task = 3, priority = 1, handle = 2\<rparr>], running = 2,
            paused = False, emptyCallbacks = [],
            promises = [Fulfilled 5, Pending, Pending],
            chains = [(\<lparr>task = 1, priority = 1, handle = 0\<rparr>, Settled),
                      (\<lparr>task = 2, priority = 4, handle = 1\<rparr>, Working)],
            frames = [],
            trace = [Dispatch \<lparr>task = 1, priority = 1, handle = 0\<rparr>,
                     Dispatch \<lparr>task = 2, priority = 4, handle = 1\<rparr>,
                     Settle 0 (Result 5)]\<rparr>
   in concurrency_opt opts = Some 2 \<and> (0::int) < 2 \<and>
      run [Add 1 None, Add 2 (Some 4), Add 3 None, TaskDone 0 (Result 5)]
        (constructor opts) = Some s \<and>
      pending s \<le> 2 \<and> pending s = int (length (chains s))"
proof -
  let ?opts = "\<lparr>concurrency_opt = Some 2, autoStart_opt = None\<rparr>"
  let ?evs = "[Add 1 None, Add 2 (Some 4), Add 3 None, TaskDone 0 (Result 5)]"
  have o: "concurrency_opt ?opts = Some 2"
    by simp
  have r: "run ?evs (constructor ?opts) =
      Some \<lparr>concurrency = 2, autoStart = True,
            queue = [\<lparr>task = 3, priority = 1, handle = 2\<rparr>], running = 2,
            paused = False, emptyCallbacks = [],
            promises = [Fulfilled 5, Pending, Pending],
            chains = [(\<lparr>task = 1, priority = 1, handle = 0\<rparr>, Settled),
                      (\<lparr>task = 2, priority = 4, handle = 1\<rparr>, Working)],
            frames = [],
            trace = [Dispatch \<lparr>task = 1, priority = 1, handle = 0\<rparr>,
                     Dispatch \<lparr>task = 2, priority = 4, handle = 1\<rparr>,
                     Settle 0 (Result 5)]\<rparr>"
    by code_simp
  from pending_never_exceeds_concurrency [OF o _ r] r show ?thesis
    by (simp add: Let_def)
qed

section \<open>Order of dispatch\<close>

subsection \<open>The sort\<close>

lemma insert_sorted_insort:
  "insert_sorted compare x ys = insort_key (\<lambda>e. - priority e) x ys"
  by (induction ys) (auto simp: compare_def)

lemma array_sort_sort_key: "array_sort compare xs = sort_key (\<lambda>e. - priority e) xs"
  by (induction xs) (simp_all add: insert_sorted_insort)

lemma set_array_sort [simp]: "set (array_sort compare xs) = set xs"
  by (simp add: array_sort_sort_key)

lemma length_array_sort [simp]: "length (array_sort compare xs) = length xs"
  by (simp add: array_sort_sort_key)

lemma sorted_array_sort:
  "sorted_wrt (\<lambda>a b. priority b \<le> priority a) (array_sort compare xs)"
proof -
  have "sorted (map (\<lambda>e. - priority e) (array_sort compare xs))"
    by (simp add: array_sort_sort_key)
  then show ?thesis
    by (simp add: sorted_wrt_map)
qed

lemma array_sort_stable:
  "filter (\<lambda>e. priority e = k) (array_sort compare xs) = filter (\<lambda>e. priority e = k) xs"
  using sort_key_stable [of "\<lambda>e. - priority e" "- k" xs]
  by (simp add: array_sort_sort_key)

lemma add_admitted:
  "add t prio s =
     (length (promises s),
      if autoStart s \<and> \<not> paused s then process (admitted t prio s) else admitted t prio s)"
  by (simp add: add_def admitted_def entry_of_def Let_def)

subsection \<open>The trace\<close>

lemma dispatched_append [simp]: "dispatched (xs @ ys) = dispatched xs @ dispatched ys"
  by (induction xs rule: dispatched.induct) simp_all

lemma dispatched_map_Dispatch [simp]: "dispatched (map Dispatch es) = es"
  by (induction es) simp_all

lemma dispatched_map_Discard [simp]: "dispatched (map Discard es) = []"
  by (induction es) simp_all

lemma dispatched_map_Drop [simp]: "dispatched (map Drop cs) = []"
  by (induction cs) simp_all

lemma dispatched_checkEmpty [simp]:
  "dispatched (trace (checkEmpty s)) = dispatched (trace s)"
  by (simp add: checkEmpty_def forEach_def invoke_def split: list.splits)

subsection \<open>Three priorities\<close>

text \<open>
  Claim C3, as stated, fails. With \<open>concurrency = 1\<close> and nothing else said,
  \<open>autoStart\<close> is on, so the first \<open>add\<close> dispatches its task before the other
  two are admitted: tasks admitted with priorities 1, 5, 3 are dispatched in the
  order 1, 5, 3.
\<close>

theorem dispatch_order_autostart_counterexample:
  "map_option dispatch_priorities
     (run [Add 10 (Some 1), Add 11 (Some 5), Add 12 (Some 3),
           TaskDone 0 (Result 0), Finally 0, TaskDone 1 (Result 0), Finally 1]
        (constructor \<lparr>concurrency_opt = Some 1, autoStart_opt = None\<rparr>)) = Some [1, 5, 3]"
  by code_simp

text \<open>
  Claim C3, amended. With \<open>concurrency = 1\<close>, three tasks admitted with
  priorities 1, 5, 3 while the queue does not dispatch (constructed with
  \<open>autoStart: false\<close>, or paused before the admissions) are dispatched, after
  \<open>start()\<close>, in the order 5, 3, 1, whatever the tasks are and however they end.
  When the queue dispatches on admission (\<open>autoStart\<close> on, not paused) the first
  admitted task goes first and the order is 1, 5, 3.
\<close>

theorem dispatch_order_by_priority:
  "map_option dispatch_priorities
     (run [Add t1 (Some 1), Add t2 (Some 5), Add t3 (Some 3), Start,
           TaskDone 1 o1, Finally 1, TaskDone 2 o2, Finally 2, TaskDone 0 o3, Finally 0]
        (constructor \<lparr>concurrency_opt = Some 1, autoStart_opt = Some False\<rparr>)) = Some [5, 3, 1] \<and>
   map_option dispatch_priorities
     (run [Pause, Add t1 (Some 1), Add t2 (Some 5), Add t3 (Some 3), Start,
           TaskDone 1 o1, Finally 1, TaskDone 2 o2, Finally 2, TaskDone 0 o3, Finally 0]
        (constructor \<lparr>concurrency_opt = Some 1, autoStart_opt = None\<rparr>)) = Some [5, 3, 1] \<and>
   map_option dispatch_priorities
     (run [Add t1 (Some 1), Add t2 (Some 5), Add t3 (Some 3),
           TaskDone 0 o1, Finally 0, TaskDone 1 o2, Finally 1, TaskDone 2 o3, Finally 2]
        (constructor \<lparr>concurrency_opt = Some 1, autoStart_opt = None\<rparr>)) = Some [1, 5, 3]"
  by code_simp

subsection \<open>Equal priorities\<close>

lemma dispatched_process:
  "dispatched (trace (process s)) @ queue (process s) = dispatched (trace s) @ queue s"
  by (simp add: process_def process_loop_result process_result_def)

lemma queue_process: "queue (process s) = drop (if paused s then 0 else slots s) (queue s)"
  by (simp add: process_def process_loop_result process_result_def)

lemma fifo_process: "fifo s \<Longrightarrow> fifo (process s)"
  unfolding fifo_def dispatched_process
  by (simp add: queue_process sorted_wrt_drop)

lemma fifo_admitted:
  assumes "fifo s"
  shows "fifo (admitted t prio s)"
proof -
  let ?e = "entry_of t prio s"
  let ?a = "admitted t prio s"
  have q: "queue ?a = array_sort compare (queue s @ [?e])"
    and t: "trace ?a = trace s" and p: "promises ?a = promises s @ [Pending]"
    by (simp_all add: admitted_def)
  have h: "handle ?e = length (promises s)"
    by (simp add: entry_of_def)
  have "sorted_wrt (<) (map handle (filter (\<lambda>e. priority e = k) (dispatched (trace ?a) @ queue ?a)))"
    for k
  proof -
    have "filter (\<lambda>e. priority e = k) (dispatched (trace ?a) @ queue ?a) =
        filter (\<lambda>e. priority e = k) (dispatched (trace s) @ queue s) @
        filter (\<lambda>e. priority e = k) [?e]"
      by (simp add: q t array_sort_stable)
    moreover have "sorted_wrt (<)
        (map handle (filter (\<lambda>e. priority e = k) (dispatched (trace s) @ queue s)))"
      using assms by (simp add: fifo_def)
    moreover have "\<forall>x \<in> set (dispatched (trace s) @ queue s). handle x < handle ?e"
      using assms by (simp add: fifo_def h)
    ultimately show ?thesis
      by (auto simp: sorted_wrt_append)
  qed
  moreover have "\<forall>x \<in> set (dispatched (trace ?a) @ queue ?a). handle x < length (promises ?a)"
    using assms by (auto simp: fifo_def q t p h less_Suc_eq)
  ultimately show ?thesis
    by (simp add: fifo_def q sorted_array_sort)
qed

lemma step_fifo: "fifo s \<Longrightarrow> step ev s = Some s' \<Longrightarrow> fifo s'"
proof (cases ev)
  case (Add t prio)
  assume "fifo s" "step ev s = Some s'"
  then show ?thesis
    using Add fifo_admitted [of s t prio] fifo_process [of "admitted t prio s"]
    by (auto simp: add_admitted)
next
  case Start
  assume "fifo s" "step ev s = Some s'"
  then show ?thesis
    using Start fifo_process [of "s \<lparr>paused := False\<rparr>"]
    by (auto simp: start_def fifo_def)
next
  case (Finally h)
  assume f: "fifo s" and st: "step ev s = Some s'"
  from st Finally obtain i where s': "s' = chainFinally i s"
    by (auto split: if_splits)
  from f have "fifo (s \<lparr>chains := take i (chains s) @ drop (Suc i) (chains s),
      running := running s - 1\<rparr>)"
    by (simp add: fifo_def)
  from fifo_process [OF this] show ?thesis
    by (simp add: s' chainFinally_def Let_def fifo_def)
next
  case Clear
  assume "fifo s" "step ev s = Some s'"
  then show ?thesis
    using Clear by (auto simp: clear_def fifo_def sorted_wrt_append)
qed (auto simp: pause_def onEmpty_def taskDone_def fifo_def Let_def invoke_def
      checkEmpty_def forEach_def split: if_splits list.splits)

lemma fifo_lexicographic:
  assumes "sorted_wrt (\<lambda>a b. priority b \<le> priority a) xs"
    and "\<And>k. sorted_wrt (<) (map handle (filter (\<lambda>e. priority e = k) xs))"
  shows "sorted_wrt (\<lambda>a b. priority b < priority a \<or>
           (priority a = priority b \<and> handle a < handle b)) xs"
  using assms
proof (induction xs)
  case Nil
  then show ?case by simp
next
  case (Cons x xs)
  have "sorted_wrt (<) (map handle (filter (\<lambda>e. priority e = k) xs))" for k
    using Cons.prems(2) [of k] by (simp split: if_splits)
  with Cons have tl: "sorted_wrt (\<lambda>a b. priority b < priority a \<or>
           (priority a = priority b \<and> handle a < handle b)) xs"
    by simp
  have "priority y < priority x \<or> (priority x = priority y \<and> handle x < handle y)"
    if "y \<in> set xs" for y
  proof (cases "priority y = priority x")
    case True
    with that Cons.prems(2) [of "priority x"] show ?thesis by auto
  next
    case False
    with that Cons.prems(1) show ?thesis by auto
  qed
  with tl show ?case by simp
qed

text \<open>
  Claim C10. In every state a run can reach, the backlog is ordered by
  descending priority and, among equal priorities, by admission (handles are
  given out in admission order); the entries of one priority have been
  dispatched in admission order; and an admission that does not dispatch leaves
  the entries of each priority in the order they had, the new entry last.
\<close>

theorem equal_priority_fifo:
  assumes "run evs (constructor opts) = Some s"
  shows "sorted_wrt (\<lambda>a b. priority b < priority a \<or>
             (priority a = priority b \<and> handle a < handle b)) (queue s) \<and>
         (\<forall>k. sorted_wrt (<)
             (map handle (filter (\<lambda>e. priority e = k) (dispatched (trace s))))) \<and>
         (\<forall>t prio k. \<not> (autoStart s \<and> \<not> paused s) \<longrightarrow>
             filter (\<lambda>e. priority e = k) (queue (snd (add t prio s))) =
             filter (\<lambda>e. priority e = k) (queue s @ [entry_of t prio s]))"
proof -
  have "fifo (constructor opts)"
    by (simp add: fifo_def constructor_def)
  with assms have f: "fifo s"
    by (rule run_invariant) (rule step_fifo)
  have "sorted_wrt (<) (map handle (filter (\<lambda>e. priority e = k) (queue s)))" for k
    using f by (simp add: fifo_def sorted_wrt_append)
  with f have 1: "sorted_wrt (\<lambda>a b. priority b < priority a \<or>
             (priority a = priority b \<and> handle a < handle b)) (queue s)"
    by (intro fifo_lexicographic) (simp_all add: fifo_def)
  have 2: "sorted_wrt (<) (map handle (filter (\<lambda>e. priority e = k) (dispatched (trace s))))"
    for k
    using f by (simp add: fifo_def sorted_wrt_append)
  have 3: "filter (\<lambda>e. priority e = k) (queue (snd (add t prio s))) =
      filter (\<lambda>e. priority e = k) (queue s @ [entry_of t prio s])"
    if "\<not> (autoStart s \<and> \<not> paused s)" for t prio k
    using that by (auto simp: add_admitted admitted_def array_sort_stable)
  from 1 2 3 show ?thesis by blast
qed

theorem equal_priority_fifo_witness:
  "let s = \<lparr>concurrency = 1, autoStart = True,
            queue = [\<lparr>task = 4, priority = 2, handle = 3\<rparr>], running = 1,
            paused = False, emptyCallbacks = [],
            promises = [Fulfilled 0, Pending, Fulfilled 0, Pending],
            chains = [(\<lparr>task = 2, priority = 2, handle = 1\<rparr>, Working)],
            frames = [],
            trace = [Dispatch \<lparr>task = 3, priority = 5, handle = 2\<rparr>, Settle 2 (Result 0),
                     Dispatch \<lparr>task = 1, priority = 2, handle = 0\<rparr>, Settle 0 (Result 0),
                     Dispatch \<lparr>task = 2, priority = 2, handle = 1\<rparr>]\<rparr>
   in run [Pause, Add 1 (Some 2), Add 2 (Some 2), Add 3 (Some 5), Add 4 (Some 2), Start,
           TaskDone 2 (Result 0), Finally 2, TaskDone 0 (Result 0), Finally 0]
        (constructor \<lparr>concurrency_opt = None, autoStart_opt = None\<rparr>) = Some s \<and>
      sorted_wrt (\<lambda>a b. priority b < priority a \<or>
             (priority a = priority b \<and> handle a < handle b)) (queue s) \<and>
      sorted_wrt (<) (map handle (filter (\<lambda>e. priority e = 2) (dispatched (trace s)))) \<and>
      map handle (filter (\<lambda>e. priority e = 2) (dispatched (trace s))) = [0, 1]"
proof -
  let ?s = "\<lparr>concurrency = 1, autoStart = True,
            queue = [\<lparr>task = 4, priority = 2, handle = 3\<rparr>], running = 1,
            paused = False, emptyCallbacks = [],
            promises = [Fulfilled 0, Pending, Fulfilled 0, Pending],
            chains = [(\<lparr>task = 2, priority = 2, handle = 1\<rparr>, Working)],
            frames = [],
            trace = [Dispatch \<lparr>task = 3, priority = 5, handle = 2\<rparr>, Settle 2 (Result 0),
                     Dispatch \<lparr>task = 1, priority = 2, handle = 0\<rparr>, Settle 0 (Result 0),
                     Dispatch \<lparr>task = 2, priority = 2, handle = 1\<rparr>]\<rparr>"
  have r: "run [Pause, Add 1 (Some 2), Add 2 (Some 2), Add 3 (Some 5), Add 4 (Some 2), Start,
           TaskDone 2 (Result 0), Finally 2, TaskDone 0 (Result 0), Finally 0]
        (constructor \<lparr>concurrency_opt = None, autoStart_opt = None\<rparr>) = Some ?s"
    by code_simp
  have d: "map handle (filter (\<lambda>e. priority e = 2) (dispatched (trace ?s))) = [0, 1]"
    by simp
  from equal_priority_fifo [OF r] r d show ?thesis
    unfolding Let_def by blast
qed

subsection \<open>Priority 0\<close>

lemma admissions_Cons: "admissions (ev # evs) = admissions [ev] @ admissions evs"
  by (cases ev) simp_all

lemma recorded_process: "recorded adm s \<Longrightarrow> recorded adm (process s)"
  unfolding recorded_def dispatched_process by simp

lemma recorded_admitted:
  assumes "recorded adm s"
  shows "recorded (adm @ [prio]) (admitted t prio s)"
proof -
  let ?e = "entry_of t prio s"
  from assms have l: "length (promises s) = length adm"
    by (simp add: recorded_def)
  have new: "handle ?e = length adm" "(adm @ [prio]) ! length adm = prio"
    "priority ?e = (case prio of None \<Rightarrow> 1 | Some p \<Rightarrow> if p = 0 then 1 else p)"
    by (simp_all add: entry_of_def l)
  have old: "(adm @ [prio]) ! handle e = adm ! handle e" if "handle e < length adm" for e :: entry
    using that by (simp add: nth_append)
  have "set (dispatched (trace (admitted t prio s)) @ queue (admitted t prio s)) =
      insert ?e (set (dispatched (trace s) @ queue s))"
    by (simp add: admitted_def)
  moreover have "handle ?e < length (adm @ [prio]) \<and>
        ((adm @ [prio]) ! handle ?e = None \<or> (adm @ [prio]) ! handle ?e = Some 0 \<longrightarrow>
           priority ?e = 1) \<and>
        (\<forall>p. (adm @ [prio]) ! handle ?e = Some p \<and> p \<noteq> 0 \<longrightarrow> priority ?e = p)"
    unfolding new by auto
  moreover have "handle e < length (adm @ [prio]) \<and>
        ((adm @ [prio]) ! handle e = None \<or> (adm @ [prio]) ! handle e = Some 0 \<longrightarrow>
           priority e = 1) \<and>
        (\<forall>p. (adm @ [prio]) ! handle e = Some p \<and> p \<noteq> 0 \<longrightarrow> priority e = p)"
    if "e \<in> set (dispatched (trace s) @ queue s)" for e
  proof -
    from assms that have "handle e < length adm \<and>
        (adm ! handle e = None \<or> adm ! handle e = Some 0 \<longrightarrow> priority e = 1) \<and>
        (\<forall>p. adm ! handle e = Some p \<and> p \<noteq> 0 \<longrightarrow> priority e = p)"
      unfolding recorded_def by blast
    then show ?thesis
      by (simp add: old)
  qed
  ultimately show ?thesis
    unfolding recorded_def using l by (simp add: admitted_def)
qed

lemma step_recorded:
  assumes "recorded adm s" and "step ev s = Some s'"
  shows "recorded (adm @ admissions [ev]) s'"
proof (cases ev)
  case (Add t prio)
  with assms recorded_admitted [OF assms(1), of prio t]
    recorded_process [of "adm @ [prio]" "admitted t prio s"]
  show ?thesis
    by (auto simp: add_admitted)
next
  case Start
  from assms(1) have "recorded adm (s \<lparr>paused := False\<rparr>)"
    by (simp add: recorded_def)
  from recorded_process [OF this] assms(2) Start show ?thesis
    by (auto simp: start_def)
next
  case (Finally h)
  with assms(2) obtain i where s': "s' = chainFinally i s"
    by (auto split: if_splits)
  from assms(1) have "recorded adm (s \<lparr>chains := take i (chains s) @ drop (Suc i) (chains s),
      running := running s - 1\<rparr>)"
    by (simp add: recorded_def)
  from recorded_process [OF this] Finally show ?thesis
    by (simp add: s' chainFinally_def Let_def recorded_def)
next
  case Clear
  with assms show ?thesis
    by (auto simp: clear_def recorded_def)
qed (use assms in \<open>auto simp: pause_def onEmpty_def taskDone_def recorded_def Let_def invoke_def
      checkEmpty_def forEach_def split: if_splits list.splits\<close>)

lemma run_recorded:
  assumes "run evs s = Some s'" and "recorded adm s"
  shows "recorded (adm @ admissions evs) s'"
  using assms
proof (induction evs arbitrary: s adm)
  case Nil
  then show ?case by simp
next
  case (Cons ev evs)
  from Cons.prems(1) obtain s1 where s1: "step ev s = Some s1" and r: "run evs s1 = Some s'"
    by (auto split: option.splits)
  from Cons.IH [OF r step_recorded [OF Cons.prems(2) s1]] show ?case
    by (subst admissions_Cons) simp
qed

lemma dispatched_trace_process:
  "dispatched (trace (process s)) =
     dispatched (trace s) @ take (if paused s then 0 else slots s) (queue s)"
  by (simp add: process_def process_loop_result process_result_def)

lemma step_dispatches_head:
  assumes "step ev s = Some s'"
  shows "\<exists>q k. set (queue s) \<subseteq> set q \<and>
            (sorted_wrt (\<lambda>a b. priority b \<le> priority a) (queue s) \<longrightarrow>
               sorted_wrt (\<lambda>a b. priority b \<le> priority a) q) \<and>
            dispatched (trace s') = dispatched (trace s) @ take k q"
proof (cases ev)
  case (Add t prio)
  let ?a = "admitted t prio s"
  have f: "trace ?a = trace s" "paused ?a = paused s" "autoStart ?a = autoStart s"
    by (simp_all add: admitted_def)
  have "set (queue s) \<subseteq> set (queue ?a)"
    and "sorted_wrt (\<lambda>a b. priority b \<le> priority a) (queue ?a)"
    by (auto simp: admitted_def sorted_array_sort)
  moreover have "dispatched (trace s') = dispatched (trace s) @
      take (if autoStart s \<and> \<not> paused s then slots ?a else 0) (queue ?a)"
    using assms Add by (auto simp: add_admitted dispatched_trace_process f)
  ultimately show ?thesis by blast
next
  case Start
  with assms have "dispatched (trace s') = dispatched (trace s) @
      take (slots (s \<lparr>paused := False\<rparr>)) (queue s)"
    by (auto simp: start_def dispatched_trace_process)
  then show ?thesis by blast
next
  case (Finally h)
  with assms obtain i where s': "s' = chainFinally i s"
    by (auto split: if_splits)
  define s2 where "s2 = s \<lparr>chains := take i (chains s) @ drop (Suc i) (chains s),
      running := running s - 1\<rparr>"
  have "s' = checkEmpty (process s2)"
    by (simp add: s' chainFinally_def Let_def s2_def)
  then have "dispatched (trace s') = dispatched (trace s) @
      take (if paused s then 0 else slots s2) (queue s)"
    by (simp add: dispatched_trace_process s2_def)
  then show ?thesis by blast
next
  case (TaskDone h out)
  with assms have "dispatched (trace s') = dispatched (trace s) @ take 0 (queue s)"
    by (auto simp: taskDone_def Let_def split: if_splits)
  then show ?thesis by blast
next
  case Pause
  with assms have "dispatched (trace s') = dispatched (trace s) @ take 0 (queue s)"
    by (auto simp: pause_def)
  then show ?thesis by blast
next
  case Clear
  with assms have "dispatched (trace s') = dispatched (trace s) @ take 0 (queue s)"
    by (auto simp: clear_def)
  then show ?thesis by blast
next
  case (OnEmpty cb)
  with assms have "dispatched (trace s') = dispatched (trace s) @ take 0 (queue s)"
    by (auto simp: onEmpty_def Let_def)
  then show ?thesis by blast
next
  case Return
  with assms have "dispatched (trace s') = dispatched (trace s) @ take 0 (queue s)"
    by (auto simp: invoke_def split: list.splits)
  then show ?thesis by blast
next
  case Throw
  with assms have "dispatched (trace s') = dispatched (trace s) @ take 0 (queue s)"
    by (auto split: list.splits)
  then show ?thesis by blast
qed

lemma sorted_take_member:
  assumes "sorted_wrt (\<lambda>a b. priority b \<le> priority a) q" and "b \<in> set (take k q)"
    and "a \<in> set q" and "priority b < priority a"
  shows "a \<in> set (take k q)"
proof (rule ccontr)
  assume "a \<notin> set (take k q)"
  with assms(3) have "a \<in> set (drop k q)"
    by (metis Un_iff append_take_drop_id set_append)
  moreover from assms(1) have "sorted_wrt (\<lambda>a b. priority b \<le> priority a) (take k q @ drop k q)"
    by simp
  ultimately have "priority a \<le> priority b"
    using assms(2) unfolding sorted_wrt_append by blast
  with assms(4) show False by simp
qed

lemma waiting_not_dispatched:
  assumes "fifo s" and "b \<in> set (queue s)"
  shows "b \<notin> set (dispatched (trace s))"
proof
  assume d: "b \<in> set (dispatched (trace s))"
  from assms(1) have "sorted_wrt (<)
      (map handle (filter (\<lambda>e. priority e = priority b) (dispatched (trace s) @ queue s)))"
    unfolding fifo_def by blast
  then have "\<forall>x \<in> set (filter (\<lambda>e. priority e = priority b) (dispatched (trace s))).
      \<forall>y \<in> set (filter (\<lambda>e. priority e = priority b) (queue s)). handle x < handle y"
    by (simp add: sorted_wrt_append)
  with d assms(2) show False
    by auto
qed

text \<open>
  Claim C9. A task added with the explicit priority 0 is stored with the default
  priority 1: \<open>add\<close> with priority 0, with no priority and with priority 1 give
  the same state and the same handle. The stored entry is in the backlog or
  already dispatched; in the backlog every entry ahead of it has priority at
  least 1 and every entry behind it has priority at most 1. Every other
  priority, a negative one in particular, is stored as it was given.

  In every state a run can reach, the priority of an entry, waiting or
  dispatched, is the one asked for in its call of \<open>add\<close>, except that 0 and
  a missing priority have become 1. So an entry added with priority 0 is ahead,
  in the backlog, of every waiting entry added with a negative priority,
  whichever was added first, and no step dispatches the negative one and leaves
  the other waiting.
\<close>

theorem priority_zero_is_default:
  "add t (Some 0) s = add t None s \<and>
   add t (Some 0) s = add t (Some 1) s \<and>
   (\<lparr>task = t, priority = 1, handle = length (promises s)\<rparr> \<in> set (queue (snd (add t (Some 0) s))) \<or>
    (\<lparr>task = t, priority = 1, handle = length (promises s)\<rparr>, Working)
       \<in> set (chains (snd (add t (Some 0) s)))) \<and>
   (\<forall>xs ys. queue (snd (add t (Some 0) s)) =
        xs @ \<lparr>task = t, priority = 1, handle = length (promises s)\<rparr> # ys \<longrightarrow>
      (\<forall>x \<in> set xs. 1 \<le> priority x)) \<and>
   (\<forall>xs ys. queue (snd (add t (Some 0) s)) =
        xs @ \<lparr>task = t, priority = 1, handle = length (promises s)\<rparr> # ys \<longrightarrow>
      (\<forall>y \<in> set ys. priority y \<le> 1)) \<and>
   (\<forall>p. p \<noteq> 0 \<longrightarrow>
      \<lparr>task = t, priority = p, handle = length (promises s)\<rparr> \<in> set (queue (snd (add t (Some p) s))) \<or>
      (\<lparr>task = t, priority = p, handle = length (promises s)\<rparr>, Working)
         \<in> set (chains (snd (add t (Some p) s)))) \<and>
   (run evs (constructor opts) = Some s \<longrightarrow>
      (\<forall>e \<in> set (dispatched (trace s) @ queue s).
         handle e < length (admissions evs) \<and>
         (admissions evs ! handle e = None \<or> admissions evs ! handle e = Some 0 \<longrightarrow>
            priority e = 1) \<and>
         (\<forall>p. admissions evs ! handle e = Some p \<and> p \<noteq> 0 \<longrightarrow> priority e = p)) \<and>
      (\<forall>xs a ys b p. queue s = xs @ a # ys \<and> b \<in> set (queue s) \<and>
         admissions evs ! handle a = Some 0 \<and> admissions evs ! handle b = Some p \<and> p < 0 \<longrightarrow>
         b \<in> set ys) \<and>
      (\<forall>ev s' a b p. step ev s = Some s' \<and> a \<in> set (queue s) \<and> b \<in> set (queue s) \<and>
         admissions evs ! handle a = Some 0 \<and> admissions evs ! handle b = Some p \<and> p < 0 \<and>
         b \<in> set (dispatched (trace s')) \<longrightarrow>
         a \<in> set (dispatched (trace s'))))"
proof -
  let ?e = "\<lparr>task = t, priority = 1, handle = length (promises s)\<rparr>"
  let ?a = "admitted t (Some 0) s"
  let ?s' = "snd (add t (Some 0) s)"
  have e: "entry_of t (Some 0) s = ?e"
    by (simp add: entry_of_def)
  have 1: "add t (Some 0) s = add t None s" "add t (Some 0) s = add t (Some 1) s"
    by (simp_all add: add_def)
  have stored: "\<lparr>task = t, priority = p, handle = length (promises s)\<rparr>
        \<in> set (queue (snd (add t (Some q) s))) \<or>
      (\<lparr>task = t, priority = p, handle = length (promises s)\<rparr>, Working)
        \<in> set (chains (snd (add t (Some q) s)))"
    if "entry_of t (Some q) s = \<lparr>task = t, priority = p, handle = length (promises s)\<rparr>"
    for p q
  proof -
    let ?b = "admitted t (Some q) s"
    let ?x = "\<lparr>task = t, priority = p, handle = length (promises s)\<rparr>"
    have m: "?x \<in> set (queue ?b)"
      by (simp add: admitted_def that)
    then have "?x \<in> set (take (slots ?b) (queue ?b)) \<or> ?x \<in> set (drop (slots ?b) (queue ?b))"
      by (metis Un_iff append_take_drop_id set_append)
    then show ?thesis
      using m by (auto simp: add_admitted process_def process_loop_result process_result_def)
  qed
  from stored [OF e] have 2: "?e \<in> set (queue ?s') \<or> (?e, Working) \<in> set (chains ?s')" .
  have q: "queue ?a = array_sort compare (queue s @ [?e])"
    by (simp add: admitted_def e)
  have "sorted_wrt (\<lambda>a b. priority b \<le> priority a) (queue ?a)"
    by (simp add: q sorted_array_sort)
  then have "sorted_wrt (\<lambda>a b. priority b \<le> priority a) (drop (slots ?a) (queue ?a))"
    by (rule sorted_wrt_drop)
  with \<open>sorted_wrt (\<lambda>a b. priority b \<le> priority a) (queue ?a)\<close>
  have srt: "sorted_wrt (\<lambda>a b. priority b \<le> priority a) (queue ?s')"
    by (auto simp: add_admitted process_def process_loop_result process_result_def)
  have 3: "\<forall>xs ys. queue ?s' = xs @ ?e # ys \<longrightarrow> (\<forall>x \<in> set xs. 1 \<le> priority x)"
  proof (intro allI impI ballI)
    fix xs ys x
    assume "queue ?s' = xs @ ?e # ys" and "x \<in> set xs"
    with srt have "priority ?e \<le> priority x"
      by (auto simp: sorted_wrt_append)
    then show "1 \<le> priority x" by simp
  qed
  have 4: "\<forall>xs ys. queue ?s' = xs @ ?e # ys \<longrightarrow> (\<forall>y \<in> set ys. priority y \<le> 1)"
  proof (intro allI impI ballI)
    fix xs ys y
    assume "queue ?s' = xs @ ?e # ys" and "y \<in> set ys"
    with srt have "priority y \<le> priority ?e"
      by (auto simp: sorted_wrt_append)
    then show "priority y \<le> 1" by simp
  qed
  have 5: "\<forall>p. p \<noteq> 0 \<longrightarrow>
      \<lparr>task = t, priority = p, handle = length (promises s)\<rparr> \<in> set (queue (snd (add t (Some p) s))) \<or>
      (\<lparr>task = t, priority = p, handle = length (promises s)\<rparr>, Working)
         \<in> set (chains (snd (add t (Some p) s)))"
  proof (intro allI impI)
    fix p :: int
    assume "p \<noteq> 0"
    then have "entry_of t (Some p) s = \<lparr>task = t, priority = p, handle = length (promises s)\<rparr>"
      by (simp add: entry_of_def)
    from stored [OF this]
    show "\<lparr>task = t, priority = p, handle = length (promises s)\<rparr>
          \<in> set (queue (snd (add t (Some p) s))) \<or>
        (\<lparr>task = t, priority = p, handle = length (promises s)\<rparr>, Working)
          \<in> set (chains (snd (add t (Some p) s)))" .
  qed
  have 6: "(\<forall>e \<in> set (dispatched (trace s) @ queue s).
         handle e < length (admissions evs) \<and>
         (admissions evs ! handle e = None \<or> admissions evs ! handle e = Some 0 \<longrightarrow>
            priority e = 1) \<and>
         (\<forall>p. admissions evs ! handle e = Some p \<and> p \<noteq> 0 \<longrightarrow> priority e = p)) \<and>
      (\<forall>xs a ys b p. queue s = xs @ a # ys \<and> b \<in> set (queue s) \<and>
         admissions evs ! handle a = Some 0 \<and> admissions evs ! handle b = Some p \<and> p < 0 \<longrightarrow>
         b \<in> set ys) \<and>
      (\<forall>ev s' a b p. step ev s = Some s' \<and> a \<in> set (queue s) \<and> b \<in> set (queue s) \<and>
         admissions evs ! handle a = Some 0 \<and> admissions evs ! handle b = Some p \<and> p < 0 \<and>
         b \<in> set (dispatched (trace s')) \<longrightarrow>
         a \<in> set (dispatched (trace s')))"
    if r: "run evs (constructor opts) = Some s"
  proof (intro conjI)
    have "recorded [] (constructor opts)"
      by (simp add: recorded_def constructor_def)
    from run_recorded [OF r this] have rec: "recorded (admissions evs) s"
      by simp
    then show a: "\<forall>e \<in> set (dispatched (trace s) @ queue s).
         handle e < length (admissions evs) \<and>
         (admissions evs ! handle e = None \<or> admissions evs ! handle e = Some 0 \<longrightarrow>
            priority e = 1) \<and>
         (\<forall>p. admissions evs ! handle e = Some p \<and> p \<noteq> 0 \<longrightarrow> priority e = p)"
      unfolding recorded_def by blast
    have "fifo (constructor opts)"
      by (simp add: fifo_def constructor_def)
    with r have f: "fifo s"
      by (rule run_invariant) (rule step_fifo)
    then have sq: "sorted_wrt (\<lambda>a b. priority b \<le> priority a) (queue s)"
      by (simp add: fifo_def)
    have lt: "priority b < priority a"
      if "a \<in> set (queue s)" "b \<in> set (queue s)" "admissions evs ! handle a = Some 0"
        "admissions evs ! handle b = Some p" "p < 0" for a b p
    proof -
      from a that(1,3) have "priority a = 1"
        by simp
      moreover from a that(2,4,5) have "priority b = p"
        by simp
      ultimately show ?thesis
        using that(5) by simp
    qed
    show "\<forall>xs a ys b p. queue s = xs @ a # ys \<and> b \<in> set (queue s) \<and>
         admissions evs ! handle a = Some 0 \<and> admissions evs ! handle b = Some p \<and> p < 0 \<longrightarrow>
         b \<in> set ys"
    proof (intro allI impI)
      fix xs a ys b p
      assume h: "queue s = xs @ a # ys \<and> b \<in> set (queue s) \<and>
         admissions evs ! handle a = Some 0 \<and> admissions evs ! handle b = Some p \<and> p < 0"
      then have "a \<in> set (queue s)"
        by simp
      from lt [OF this] h have l: "priority b < priority a"
        by blast
      from sq h have "\<forall>x \<in> set xs. priority a \<le> priority x"
        by (simp add: sorted_wrt_append)
      with l have "b \<notin> set xs" "b \<noteq> a"
        by auto
      with h show "b \<in> set ys"
        by auto
    qed
    show "\<forall>ev s' a b p. step ev s = Some s' \<and> a \<in> set (queue s) \<and> b \<in> set (queue s) \<and>
         admissions evs ! handle a = Some 0 \<and> admissions evs ! handle b = Some p \<and> p < 0 \<and>
         b \<in> set (dispatched (trace s')) \<longrightarrow>
         a \<in> set (dispatched (trace s'))"
    proof (intro allI impI)
      fix ev s' a b p
      assume h: "step ev s = Some s' \<and> a \<in> set (queue s) \<and> b \<in> set (queue s) \<and>
         admissions evs ! handle a = Some 0 \<and> admissions evs ! handle b = Some p \<and> p < 0 \<and>
         b \<in> set (dispatched (trace s'))"
      then have st: "step ev s = Some s'" and ia: "a \<in> set (queue s)" and ib: "b \<in> set (queue s)"
        by simp_all
      from lt [OF ia ib] h have l: "priority b < priority a"
        by blast
      from step_dispatches_head [OF st] sq obtain q k where sub: "set (queue s) \<subseteq> set q"
        and s: "sorted_wrt (\<lambda>a b. priority b \<le> priority a) q"
        and d: "dispatched (trace s') = dispatched (trace s) @ take k q"
        by blast
      from waiting_not_dispatched [OF f ib] h d have "b \<in> set (take k q)"
        by simp
      from sorted_take_member [OF s this _ l] sub ia have "a \<in> set (take k q)"
        by blast
      then show "a \<in> set (dispatched (trace s'))"
        by (simp add: d)
    qed
  qed
  from 1 2 3 4 5 6 show ?thesis
    by (intro conjI impI) blast+
qed

theorem priority_zero_is_default_witness:
  "let s = \<lparr>concurrency = 3, autoStart = True,
             queue = [\<lparr>task = 2, priority = 7, handle = 1\<rparr>,
                      \<lparr>task = 1, priority = - 2, handle = 0\<rparr>],
             running = 0, paused = True, emptyCallbacks = [],
             promises = [Pending, Pending],
             chains = [],
             frames = [], trace = []\<rparr>;
       s2 = \<lparr>concurrency = 3, autoStart = True,
              queue = [\<lparr>task = 2, priority = 7, handle = 1\<rparr>,
                       \<lparr>task = 3, priority = 1, handle = 2\<rparr>,
                       \<lparr>task = 1, priority = - 2, handle = 0\<rparr>],
              running = 0, paused = True, emptyCallbacks = [],
              promises = [Pending, Pending, Pending],
              chains = [],
              frames = [], trace = []\<rparr>;
       s3 = \<lparr>concurrency = 3, autoStart = True,
              queue = [],
              running = 3, paused = False, emptyCallbacks = [],
              promises = [Pending, Pending, Pending],
              chains = [(\<lparr>task = 2, priority = 7, handle = 1\<rparr>, Working),
                        (\<lparr>task = 3, priority = 1, handle = 2\<rparr>, Working),
                        (\<lparr>task = 1, priority = - 2, handle = 0\<rparr>, Working)],
              frames = [], trace = [Dispatch \<lparr>task = 2, priority = 7, handle = 1\<rparr>,
                       Dispatch \<lparr>task = 3, priority = 1, handle = 2\<rparr>,
                       Dispatch \<lparr>task = 1, priority = - 2, handle = 0\<rparr>]\<rparr>;
       evs = [Pause, Add 1 (Some (- 2)), Add 2 (Some 7), Add 3 (Some 0)]
   in run [Pause, Add 1 (Some (- 2)), Add 2 (Some 7)] (constructor \<lparr>concurrency_opt = Some 3, autoStart_opt = None\<rparr>) = Some s \<and>
      add 3 (Some 0) s = (2, s2) \<and>
      add 3 None s = (2, s2) \<and>
      add 3 (Some 1) s = (2, s2) \<and>
      queue s2 = [\<lparr>task = 2, priority = 7, handle = 1\<rparr>] @ \<lparr>task = 3, priority = 1, handle = 2\<rparr> # [\<lparr>task = 1, priority = - 2, handle = 0\<rparr>] \<and>
      (\<forall>x \<in> set [\<lparr>task = 2, priority = 7, handle = 1\<rparr>]. 1 \<le> priority x) \<and>
      (\<forall>y \<in> set [\<lparr>task = 1, priority = - 2, handle = 0\<rparr>]. priority y \<le> 1) \<and>
      (\<lparr>task = 3, priority = - 2, handle = 2\<rparr> \<in> set (queue (snd (add 3 (Some (- 2)) s))) \<or>
       (\<lparr>task = 3, priority = - 2, handle = 2\<rparr>, Working) \<in> set (chains (snd (add 3 (Some (- 2)) s)))) \<and>
      run evs (constructor \<lparr>concurrency_opt = Some 3, autoStart_opt = None\<rparr>) = Some s2 \<and>
      (\<forall>e \<in> set (dispatched (trace s2) @ queue s2).
         handle e < length (admissions evs) \<and>
         (admissions evs ! handle e = None \<or> admissions evs ! handle e = Some 0 \<longrightarrow>
            priority e = 1) \<and>
         (\<forall>p. admissions evs ! handle e = Some p \<and> p \<noteq> 0 \<longrightarrow> priority e = p)) \<and>
      admissions evs ! handle \<lparr>task = 3, priority = 1, handle = 2\<rparr> = Some 0 \<and>
      admissions evs ! handle \<lparr>task = 1, priority = - 2, handle = 0\<rparr> = Some (- 2) \<and>
      \<lparr>task = 1, priority = - 2, handle = 0\<rparr> \<in> set [\<lparr>task = 1, priority = - 2, handle = 0\<rparr>] \<and>
      step Start s2 = Some s3 \<and>
      \<lparr>task = 1, priority = - 2, handle = 0\<rparr> \<in> set (dispatched (trace s3)) \<and>
      \<lparr>task = 3, priority = 1, handle = 2\<rparr> \<in> set (dispatched (trace s3))"
proof -
  let ?s = "\<lparr>concurrency = 3, autoStart = True,
            queue = [\<lparr>task = 2, priority = 7, handle = 1\<rparr>,
                     \<lparr>task = 1, priority = - 2, handle = 0\<rparr>],
            running = 0, paused = True, emptyCallbacks = [],
            promises = [Pending, Pending],
            chains = [],
            frames = [], trace = []\<rparr>"
  let ?s2 = "\<lparr>concurrency = 3, autoStart = True,
            queue = [\<lparr>task = 2, priority = 7, handle = 1\<rparr>,
                     \<lparr>task = 3, priority = 1, handle = 2\<rparr>,
                     \<lparr>task = 1, priority = - 2, handle = 0\<rparr>],
            running = 0, paused = True, emptyCallbacks = [],
            promises = [Pending, Pending, Pending],
            chains = [],
            frames = [], trace = []\<rparr>"
  let ?s3 = "\<lparr>concurrency = 3, autoStart = True,
            queue = [],
            running = 3, paused = False, emptyCallbacks = [],
            promises = [Pending, Pending, Pending],
            chains = [(\<lparr>task = 2, priority = 7, handle = 1\<rparr>, Working),
                      (\<lparr>task = 3, priority = 1, handle = 2\<rparr>, Working),
                      (\<lparr>task = 1, priority = - 2, handle = 0\<rparr>, Working)],
            frames = [], trace = [Dispatch \<lparr>task = 2, priority = 7, handle = 1\<rparr>,
                     Dispatch \<lparr>task = 3, priority = 1, handle = 2\<rparr>,
                     Dispatch \<lparr>task = 1, priority = - 2, handle = 0\<rparr>]\<rparr>"
  let ?c = "constructor \<lparr>concurrency_opt = Some 3, autoStart_opt = None\<rparr>"
  let ?evs = "[Pause, Add 1 (Some (- 2)), Add 2 (Some 7), Add 3 (Some 0)]"
  have ra: "run [Pause, Add 1 (Some (- 2)), Add 2 (Some 7)] ?c = Some ?s"
    by code_simp
  have rb: "run ?evs ?c = Some ?s2"
    by code_simp
  have ad: "add 3 (Some 0) ?s = (2, ?s2)"
    by code_simp
  have q: "queue ?s2 = [\<lparr>task = 2, priority = 7, handle = 1\<rparr>] @ \<lparr>task = 3, priority = 1, handle = 2\<rparr> # [\<lparr>task = 1, priority = - 2, handle = 0\<rparr>]"
    by simp
  have l: "length (promises ?s) = 2"
    by simp
  have n: "(- 2 :: int) \<noteq> 0"
    by simp
  have m: "admissions ?evs ! handle \<lparr>task = 3, priority = 1, handle = 2\<rparr> = Some 0 \<and>
      admissions ?evs ! handle \<lparr>task = 1, priority = - 2, handle = 0\<rparr> = Some (- 2) \<and> (- 2 :: int) < 0"
    by simp
  have i: "\<lparr>task = 3, priority = 1, handle = 2\<rparr> \<in> set (queue ?s2) \<and> \<lparr>task = 1, priority = - 2, handle = 0\<rparr> \<in> set (queue ?s2)"
    by simp
  have st: "step Start ?s2 = Some ?s3"
    by code_simp
  have d: "\<lparr>task = 1, priority = - 2, handle = 0\<rparr> \<in> set (dispatched (trace ?s3))"
    by simp
  note a = priority_zero_is_default [of 3 ?s "[Pause, Add 1 (Some (- 2)), Add 2 (Some 7)]" "\<lparr>concurrency_opt = Some 3, autoStart_opt = None\<rparr>",
    unfolded l]
  note b = priority_zero_is_default [of 0 ?s2 ?evs "\<lparr>concurrency_opt = Some 3, autoStart_opt = None\<rparr>"]
  have qa: "queue (snd (add 3 (Some 0) ?s)) = queue ?s2"
    unfolding ad by simp
  have 1: "add 3 None ?s = (2, ?s2) \<and> add 3 (Some 1) ?s = (2, ?s2)"
    unfolding a [THEN conjunct1, symmetric] a [THEN conjunct2, THEN conjunct1, symmetric] ad
    by simp
  from a q [folded qa] have 2: "(\<forall>x \<in> set [\<lparr>task = 2, priority = 7, handle = 1\<rparr>]. 1 \<le> priority x) \<and>
      (\<forall>y \<in> set [\<lparr>task = 1, priority = - 2, handle = 0\<rparr>]. priority y \<le> 1)"
    by blast
  from a n have 3: "\<lparr>task = 3, priority = - 2, handle = 2\<rparr> \<in> set (queue (snd (add 3 (Some (- 2)) ?s))) \<or>
       (\<lparr>task = 3, priority = - 2, handle = 2\<rparr>, Working) \<in> set (chains (snd (add 3 (Some (- 2)) ?s)))"
    by blast
  from b rb have 4: "\<forall>e \<in> set (dispatched (trace ?s2) @ queue ?s2).
         handle e < length (admissions ?evs) \<and>
         (admissions ?evs ! handle e = None \<or> admissions ?evs ! handle e = Some 0 \<longrightarrow>
            priority e = 1) \<and>
         (\<forall>p. admissions ?evs ! handle e = Some p \<and> p \<noteq> 0 \<longrightarrow> priority e = p)"
    by blast
  from b rb q i m have 5: "\<lparr>task = 1, priority = - 2, handle = 0\<rparr> \<in> set [\<lparr>task = 1, priority = - 2, handle = 0\<rparr>]"
    by blast
  from b rb st i m d have 6: "\<lparr>task = 3, priority = 1, handle = 2\<rparr> \<in> set (dispatched (trace ?s3))"
    by blast
  from ra rb ad q m st d 1 2 3 4 5 6 show ?thesis
    unfolding Let_def by blast
qed

section \<open>Admission and pause\<close>

lemma admitted_fields [simp]:
  "concurrency (admitted t prio s) = concurrency s"
  "autoStart (admitted t prio s) = autoStart s"
  "running (admitted t prio s) = running s"
  "paused (admitted t prio s) = paused s"
  "emptyCallbacks (admitted t prio s) = emptyCallbacks s"
  "chains (admitted t prio s) = chains s"
  "frames (admitted t prio s) = frames s"
  "trace (admitted t prio s) = trace s"
  "promises (admitted t prio s) = promises s @ [Pending]"
  "queue (admitted t prio s) = array_sort compare (queue s @ [entry_of t prio s])"
  by (simp_all add: admitted_def)

lemma process_saturates:
  "\<not> paused s \<Longrightarrow> queue (process s) = [] \<or> concurrency s \<le> running (process s)"
  by (auto simp: process_def process_loop_result process_result_def slots_def min_def)

lemma step_eager: "eager s \<Longrightarrow> step ev s = Some s' \<Longrightarrow> eager s'"
proof (cases ev)
  case (Add t prio)
  assume "eager s" "step ev s = Some s'"
  then show ?thesis
    using Add process_saturates [of "admitted t prio s"]
    by (cases "autoStart s \<and> \<not> paused s") (auto simp: add_admitted eager_def)
next
  case Start
  assume "eager s" "step ev s = Some s'"
  then show ?thesis
    using Start process_saturates [of "s \<lparr>paused := False\<rparr>"]
    by (auto simp: start_def eager_def)
next
  case (Finally h)
  assume "eager s" and st: "step ev s = Some s'"
  from st Finally obtain i where s': "s' = chainFinally i s"
    by (auto split: if_splits)
  show ?thesis
    using process_saturates [of "s \<lparr>chains := take i (chains s) @ drop (Suc i) (chains s),
      running := running s - 1\<rparr>"]
    by (auto simp: s' chainFinally_def Let_def eager_def)
qed (auto simp: pause_def clear_def onEmpty_def taskDone_def eager_def Let_def invoke_def
      checkEmpty_def forEach_def split: if_splits list.splits)

text \<open>
  Claim C8. When \<open>add\<close> is called on a queue that a run has reached, with
  \<open>autoStart\<close> on and not paused, the dispatch loop runs before \<open>add\<close> returns:
  the state \<open>add\<close> returns is the one the loop leaves. If a slot is free at the
  call, the backlog was empty, so the new entry is the one of highest priority:
  on return it has left the backlog, its chain has started and the running
  count is one higher.
\<close>

theorem add_dispatches_before_returning:
  assumes "run evs (constructor opts) = Some s"
    and "autoStart s" and "\<not> paused s"
  shows "add t prio s = (handle (entry_of t prio s), process_loop (admitted t prio s)) \<and>
         (running s < concurrency s \<longrightarrow>
            queue s = [] \<and>
            running (snd (add t prio s)) = running s + 1 \<and>
            queue (snd (add t prio s)) = [] \<and>
            chains (snd (add t prio s)) = chains s @ [(entry_of t prio s, Working)] \<and>
            trace (snd (add t prio s)) = trace s @ [Dispatch (entry_of t prio s)])"
proof -
  have a: "add t prio s = (handle (entry_of t prio s), process_loop (admitted t prio s))"
    using assms(2,3) by (simp add: add_admitted process_def admitted_def entry_of_def)
  have "queue s = [] \<and>
      running (snd (add t prio s)) = running s + 1 \<and>
      queue (snd (add t prio s)) = [] \<and>
      chains (snd (add t prio s)) = chains s @ [(entry_of t prio s, Working)] \<and>
      trace (snd (add t prio s)) = trace s @ [Dispatch (entry_of t prio s)]"
    if free: "running s < concurrency s"
  proof -
    have "eager (constructor opts)"
      by (simp add: eager_def constructor_def)
    with assms(1) have "eager s"
      by (rule run_invariant) (rule step_eager)
    with assms(2,3) free have q: "queue s = []"
      by (auto simp: eager_def)
    have "slots (admitted t prio s) = 1"
      using free by (simp add: slots_def q)
    then have "process_loop (admitted t prio s) =
        (admitted t prio s) \<lparr> queue := [], running := running s + 1,
           chains := chains s @ [(entry_of t prio s, Working)],
           trace := trace s @ [Dispatch (entry_of t prio s)] \<rparr>"
      by (simp add: process_loop_result process_result_def q)
    with q a show ?thesis by simp
  qed
  with a show ?thesis by blast
qed

theorem add_dispatches_before_returning_witness:
  "let s = \<lparr>concurrency = 2, autoStart = True, queue = [], running = 1,
            paused = False, emptyCallbacks = [], promises = [Pending],
            chains = [(\<lparr>task = 1, priority = 1, handle = 0\<rparr>, Working)],
            frames = [], trace = [Dispatch \<lparr>task = 1, priority = 1, handle = 0\<rparr>]\<rparr>
   in run [Add 1 None] (constructor \<lparr>concurrency_opt = Some 2, autoStart_opt = None\<rparr>) = Some s \<and>
      autoStart s \<and> \<not> paused s \<and> running s < concurrency s \<and>
      running (snd (add 2 (Some 3) s)) = running s + 1 \<and>
      queue (snd (add 2 (Some 3) s)) = [] \<and>
      chains (snd (add 2 (Some 3) s)) = chains s @ [(entry_of 2 (Some 3) s, Working)]"
proof -
  let ?s = "\<lparr>concurrency = 2, autoStart = True, queue = [], running = 1,
            paused = False, emptyCallbacks = [], promises = [Pending],
            chains = [(\<lparr>task = 1, priority = 1, handle = 0\<rparr>, Working)],
            frames = [], trace = [Dispatch \<lparr>task = 1, priority = 1, handle = 0\<rparr>]\<rparr>"
  have r: "run [Add 1 None] (constructor \<lparr>concurrency_opt = Some 2, autoStart_opt = None\<rparr>) = Some ?s"
    by code_simp
  have h: "autoStart ?s" "\<not> paused ?s" "running ?s < concurrency ?s"
    by simp_all
  from add_dispatches_before_returning [OF r h(1,2), of 2 "Some 3"] r h show ?thesis
    unfolding Let_def by blast
qed

lemma find_chain_None:
  "find_chain h ph cs = None \<longleftrightarrow> (\<forall>c \<in> set cs. \<not> (handle (fst c) = h \<and> snd c = ph))"
  by (induction cs) auto

text \<open>
  Claim C5. While the queue is paused, no step other than \<open>start()\<close> dispatches:
  the queue stays paused, the list of dispatched entries does not grow and no
  chain appears. \<open>add\<close> only admits. The tasks that are running go on: the
  reactions of their chains are enabled, and the \<open>finally\<close> reaction still
  decrements the running count and leaves the backlog as it is. \<open>start()\<close>
  clears the flag and runs the dispatch loop, which takes entries from the
  front of the backlog, as many as there are free slots.
\<close>

theorem paused_queue_does_not_dispatch:
  assumes "paused s" and "step ev s = Some s'" and "ev \<noteq> Start"
  shows "paused s' \<and>
         dispatched (trace s') = dispatched (trace s) \<and>
         set (map fst (chains s')) \<subseteq> set (map fst (chains s)) \<and>
         (\<forall>t prio. ev = Add t prio \<longrightarrow>
            queue s' = array_sort compare (queue s @ [entry_of t prio s]) \<and>
            running s' = running s \<and> chains s' = chains s) \<and>
         (\<forall>e out. frames s = [] \<and> (e, Working) \<in> set (chains s) \<longrightarrow>
            step (TaskDone (handle e) out) s \<noteq> None) \<and>
         (\<forall>e. frames s = [] \<and> (e, Settled) \<in> set (chains s) \<longrightarrow>
            step (Finally (handle e)) s \<noteq> None) \<and>
         (\<forall>h. ev = Finally h \<longrightarrow> running s' = running s - 1 \<and> queue s' = queue s) \<and>
         \<not> paused (start s') \<and>
         start s' = process_loop (s' \<lparr>paused := False\<rparr>) \<and>
         queue (start s') = drop (slots s') (queue s') \<and>
         running (start s') = running s' + int (slots s') \<and>
         dispatched (trace (start s')) = dispatched (trace s') @ take (slots s') (queue s')"
proof -
  have 1: "paused s' \<and> dispatched (trace s') = dispatched (trace s) \<and>
      set (map fst (chains s')) \<subseteq> set (map fst (chains s))"
  proof (cases ev)
    case (TaskDone h out)
    with assms(2) obtain i where i: "find_chain h Working (chains s) = Some i"
      and s': "s' = taskDone i out s"
      by (auto split: if_splits)
    from find_chain_Some [OF i] have "i < length (chains s)" by simp
    then have "map fst ((chains s)[i := (fst (chains s ! i), Settled)]) = map fst (chains s)"
      by (simp add: map_update list_update_same_conv)
    then show ?thesis
      using assms(1) by (simp add: s' taskDone_def Let_def)
  next
    case (Finally h)
    with assms(2) obtain i where s': "s' = chainFinally i s"
      by (auto split: if_splits)
    have "set (take i (chains s) @ drop (Suc i) (chains s)) \<subseteq> set (chains s)"
      by (auto dest: in_set_takeD in_set_dropD)
    then show ?thesis
      using assms(1) by (auto simp: s' chainFinally_def Let_def process_def)
  qed (use assms in \<open>auto simp: add_admitted admitted_def pause_def clear_def onEmpty_def
        Let_def invoke_def checkEmpty_def forEach_def split: if_splits list.splits\<close>)
  have 2: "queue s' = array_sort compare (queue s @ [entry_of t prio s]) \<and>
      running s' = running s \<and> chains s' = chains s" if "ev = Add t prio" for t prio
    using that assms(1,2) by (auto simp: add_admitted admitted_def)
  have 3: "step (TaskDone (handle e) out) s \<noteq> None"
    if "frames s = [] \<and> (e, Working) \<in> set (chains s)" for e out
  proof -
    from that have "find_chain (handle e) Working (chains s) \<noteq> None"
      unfolding find_chain_None by force
    with that show ?thesis by auto
  qed
  have 4: "step (Finally (handle e)) s \<noteq> None"
    if "frames s = [] \<and> (e, Settled) \<in> set (chains s)" for e
  proof -
    from that have "find_chain (handle e) Settled (chains s) \<noteq> None"
      unfolding find_chain_None by force
    with that show ?thesis by auto
  qed
  have 5: "running s' = running s - 1 \<and> queue s' = queue s" if "ev = Finally h" for h
    using that assms(1,2) by (auto simp: chainFinally_def Let_def process_def split: if_splits)
  have 6: "start s' = process_loop (s' \<lparr>paused := False\<rparr>)"
    by (simp add: start_def process_def)
  have 7: "\<not> paused (start s') \<and> queue (start s') = drop (slots s') (queue s') \<and>
      running (start s') = running s' + int (slots s') \<and>
      dispatched (trace (start s')) = dispatched (trace s') @ take (slots s') (queue s')"
    by (simp add: 6 process_loop_result process_result_def slots_def)
  from 1 2 3 4 5 6 7 show ?thesis by blast
qed

theorem paused_queue_does_not_dispatch_witness:
  "let s = \<lparr>concurrency = 1, autoStart = True,
            queue = [\<lparr>task = 2, priority = 1, handle = 1\<rparr>], running = 1,
            paused = True, emptyCallbacks = [], promises = [Fulfilled 0, Pending],
            chains = [(\<lparr>task = 1, priority = 1, handle = 0\<rparr>, Settled)],
            frames = [],
            trace = [Dispatch \<lparr>task = 1, priority = 1, handle = 0\<rparr>,
                     Settle 0 (Result 0)]\<rparr>;
       s' = \<lparr>concurrency = 1, autoStart = True,
            queue = [\<lparr>task = 2, priority = 1, handle = 1\<rparr>], running = 0,
            paused = True, emptyCallbacks = [], promises = [Fulfilled 0, Pending],
            chains = [], frames = [],
            trace = [Dispatch \<lparr>task = 1, priority = 1, handle = 0\<rparr>,
                     Settle 0 (Result 0)]\<rparr>
   in paused s \<and> step (Finally 0) s = Some s' \<and> Finally 0 \<noteq> Start \<and>
      paused s' \<and> dispatched (trace s') = dispatched (trace s) \<and>
      running s' = running s - 1 \<and> queue s' = queue s \<and>
      \<not> paused (start s') \<and>
      dispatched (trace (start s')) = dispatched (trace s') @ take (slots s') (queue s')"
proof -
  let ?s = "\<lparr>concurrency = 1, autoStart = True,
            queue = [\<lparr>task = 2, priority = 1, handle = 1\<rparr>], running = 1,
            paused = True, emptyCallbacks = [], promises = [Fulfilled 0, Pending],
            chains = [(\<lparr>task = 1, priority = 1, handle = 0\<rparr>, Settled)],
            frames = [],
            trace = [Dispatch \<lparr>task = 1, priority = 1, handle = 0\<rparr>,
                     Settle 0 (Result 0)]\<rparr>"
  let ?s' = "\<lparr>concurrency = 1, autoStart = True,
            queue = [\<lparr>task = 2, priority = 1, handle = 1\<rparr>], running = 0,
            paused = True, emptyCallbacks = [], promises = [Fulfilled 0, Pending],
            chains = [], frames = [],
            trace = [Dispatch \<lparr>task = 1, priority = 1, handle = 0\<rparr>,
                     Settle 0 (Result 0)]\<rparr>"
  have p: "paused ?s"
    by simp
  have st: "step (Finally 0) ?s = Some ?s'"
    by code_simp
  have ne: "Finally 0 \<noteq> Start"
    by simp
  from paused_queue_does_not_dispatch [OF p st ne] p st ne show ?thesis
    unfolding Let_def by blast
qed

section \<open>Completion handles\<close>

lemma settled_append [simp]: "settled (xs @ ys) = settled xs @ settled ys"
  by (induction xs rule: settled.induct) simp_all

lemma settled_map_Dispatch [simp]: "settled (map Dispatch es) = []"
  by (induction es) simp_all

lemma settled_map_Discard [simp]: "settled (map Discard es) = []"
  by (induction es) simp_all

lemma settled_map_Drop [simp]: "settled (map Drop cs) = []"
  by (induction cs) simp_all

lemma discarded_append [simp]: "discarded (xs @ ys) = discarded xs @ discarded ys"
  by (induction xs rule: discarded.induct) simp_all

lemma discarded_map_Dispatch [simp]: "discarded (map Dispatch es) = []"
  by (induction es) simp_all

lemma discarded_map_Discard [simp]: "discarded (map Discard es) = es"
  by (induction es) simp_all

lemma discarded_map_Drop [simp]: "discarded (map Drop cs) = []"
  by (induction cs) simp_all

lemma settled_checkEmpty [simp]:
  "settled (trace (checkEmpty s)) = settled (trace s)"
  "discarded (trace (checkEmpty s)) = discarded (trace s)"
  by (simp_all add: checkEmpty_def forEach_def invoke_def split: list.splits)

lemma working_checkEmpty [simp]:
  "working (checkEmpty s) = working s" "finishing (checkEmpty s) = finishing s"
  by (simp_all add: working_def finishing_def)

lemma holders_checkEmpty [simp]: "holders (checkEmpty s) = holders s"
  by (simp add: holders_def)

lemma ledger_checkEmpty [simp]: "ledger (checkEmpty s) = ledger s"
  by (simp add: ledger_def)

lemma mset_array_sort [simp]: "mset (array_sort compare xs) = mset xs"
  by (simp add: array_sort_sort_key)

lemma image_mset_take_drop:
  "image_mset f (mset (drop n xs)) + image_mset f (mset (take n xs)) = image_mset f (mset xs)"
proof -
  have "mset xs = mset (take n xs) + mset (drop n xs)"
    by (metis append_take_drop_id mset_append)
  then show ?thesis
    by (metis image_mset_union union_commute)
qed

lemma handles_in_append [simp]:
  "handles_in ph (xs @ ys) = handles_in ph xs @ handles_in ph ys"
  by (induction xs) simp_all

lemma handles_in_started [simp]:
  "handles_in Working (map (\<lambda>e. (e, Working)) es) = map handle es"
  "handles_in Settled (map (\<lambda>e. (e, Working)) es) = []"
  by (induction es) simp_all

lemma process_effect:
  obtains k where "queue (process s) = drop k (queue s)"
    and "running (process s) = running s + int k"
    and "chains (process s) = chains s @ map (\<lambda>e. (e, Working)) (take k (queue s))"
    and "trace (process s) = trace s @ map Dispatch (take k (queue s))"
proof (cases "paused s")
  case True
  then show ?thesis
    using that [of 0] by (simp add: process_def)
next
  case False
  then show ?thesis
    using that [of "slots s"] by (simp add: process_def process_loop_result process_result_def)
qed

lemma ledger_process:
  assumes "ledger s"
  shows "ledger (process s)"
proof -
  obtain k where k: "queue (process s) = drop k (queue s)"
    "chains (process s) = chains s @ map (\<lambda>e. (e, Working)) (take k (queue s))"
    "trace (process s) = trace s @ map Dispatch (take k (queue s))"
    by (rule process_effect)
  have w: "working (process s) = working s @ map handle (take k (queue s))"
    and f: "finishing (process s) = finishing s"
    by (simp_all add: working_def finishing_def k)
  have "holders (process s) = holders s"
    unfolding holders_def w k
    by (simp add: image_mset_take_drop [symmetric, of handle "queue s" k] ac_simps)
  with assms show ?thesis
    unfolding ledger_def w f k by simp
qed

lemma ledger_distinct:
  assumes "ledger s"
  shows "distinct (map handle (queue s) @ working s @ map fst (settled (trace s)) @
           map handle (discarded (trace s)))"
    and "set (map handle (queue s) @ working s @ map fst (settled (trace s)) @
           map handle (discarded (trace s))) = {0..<length (promises s)}"
proof -
  let ?xs = "map handle (queue s) @ working s @ map fst (settled (trace s)) @
           map handle (discarded (trace s))"
  from assms have m: "mset ?xs = mset [0..<length (promises s)]"
    by (simp add: ledger_def holders_def ac_simps)
  from mset_eq_imp_distinct_iff [OF m] show "distinct ?xs" by simp
  from mset_eq_setD [OF m] show "set ?xs = {0..<length (promises s)}" by simp
qed

lemma ledger_admitted:
  assumes "ledger s"
  shows "ledger (admitted t prio s)"
proof -
  let ?n = "length (promises s)"
  from ledger_distinct(2) [OF assms] have "?n \<notin> fst ` set (settled (trace s))"
    by auto
  then have none: "map_of (settled (trace s)) ?n = None"
    by (simp add: map_of_eq_None_iff)
  have "(promises s @ [Pending]) ! h = promise_of (map_of (settled (trace s)) h)"
    if "h < Suc ?n" for h
  proof (cases "h = ?n")
    case True
    then show ?thesis by (simp add: none promise_of_def)
  next
    case False
    with that assms show ?thesis by (simp add: ledger_def nth_append)
  qed
  moreover have "holders (admitted t prio s) = holders s + {#?n#}"
    by (simp add: holders_def working_def entry_of_def)
  ultimately show ?thesis
    using assms by (simp add: ledger_def working_def finishing_def)
qed

lemma chain_split:
  assumes "i < length cs"
  obtains xs ys where "cs = xs @ cs ! i # ys" and "length xs = i"
  using assms id_take_nth_drop [of i cs] by (metis length_take min.absorb2 less_imp_le)

lemma step_ledger: "ledger s \<Longrightarrow> step ev s = Some s' \<Longrightarrow> ledger s'"
proof (cases ev)
  case (Add t prio)
  assume "ledger s" "step ev s = Some s'"
  then show ?thesis
    using Add ledger_admitted [of s t prio] ledger_process [of "admitted t prio s"]
    by (auto simp: add_admitted)
next
  case Start
  assume "ledger s" "step ev s = Some s'"
  then show ?thesis
    using Start ledger_process [of "s \<lparr>paused := False\<rparr>"]
    by (auto simp: start_def ledger_def holders_def working_def finishing_def)
next
  case Clear
  assume "ledger s" "step ev s = Some s'"
  moreover have "holders (clear s) = holders s"
    by (simp add: clear_def holders_def working_def)
  ultimately show ?thesis
    using Clear by (auto simp: ledger_def) (simp_all add: clear_def finishing_def working_def)
next
  case (OnEmpty c)
  assume "ledger s" "step ev s = Some s'"
  moreover have "ledger (s \<lparr>emptyCallbacks := emptyCallbacks s @ [c]\<rparr>) = ledger s"
    by (simp add: ledger_def holders_def working_def finishing_def)
  ultimately show ?thesis
    using OnEmpty by (auto simp: onEmpty_def Let_def)
next
  case Return
  assume "ledger s" "step ev s = Some s'"
  then show ?thesis
    using Return
    by (auto simp: ledger_def holders_def working_def finishing_def invoke_def split: list.splits)
next
  case Pause
  assume "ledger s" "step ev s = Some s'"
  then show ?thesis
    using Pause by (auto simp: pause_def ledger_def holders_def working_def finishing_def)
next
  case Throw
  assume "ledger s" "step ev s = Some s'"
  then show ?thesis
    using Throw
    by (auto simp: ledger_def holders_def working_def finishing_def split: list.splits)
next
  case (TaskDone h out)
  assume l: "ledger s" and st: "step ev s = Some s'"
  from st TaskDone obtain i where i: "find_chain h Working (chains s) = Some i"
    and s': "s' = taskDone i out s"
    by (auto split: if_splits)
  from find_chain_Some [OF i] have il: "i < length (chains s)"
    and ci: "handle (fst (chains s ! i)) = h" "snd (chains s ! i) = Working"
    by simp_all
  obtain e where e: "chains s ! i = (e, Working)" "handle e = h"
    using ci by (cases "chains s ! i") auto
  from il obtain xs ys where xy: "chains s = xs @ (e, Working) # ys" "length xs = i"
    by (rule chain_split) (simp add: e)
  have ch: "chains s' = xs @ (e, Settled) # ys"
    using xy by (auto simp: s' taskDone_def Let_def)
  have w: "mset (working s) = mset (working s') + {#h#}"
    and f: "finishing s' = handles_in Settled xs @ h # handles_in Settled ys"
       "finishing s = handles_in Settled xs @ handles_in Settled ys"
    by (simp_all add: working_def finishing_def ch xy e)
  have tr: "trace s' = trace s @ [Settle h out]"
    by (simp add: s' taskDone_def Let_def e)
  have "h \<in> set (working s)"
    by (simp add: working_def xy e)
  with ledger_distinct [OF l] have hT: "h \<notin> fst ` set (settled (trace s))"
    and hn: "h < length (promises s)"
    by auto
  then have none: "map_of (settled (trace s)) h = None"
    by (simp add: map_of_eq_None_iff)
  have pr: "promises s' = (promises s)[h := settle out (promises s ! h)]"
    by (simp add: s' taskDone_def Let_def e)
  from l hn none have "promises s ! h = Pending"
    by (simp add: ledger_def promise_of_def)
  then have ph: "promises s' ! h = promise_of (Some out)"
    using hn by (simp add: pr settle_def promise_of_def split: outcome.splits)
  have "promises s' ! k = promise_of (map_of (settled (trace s')) k)"
    if "k < length (promises s')" for k
  proof (cases "k = h")
    case True
    then show ?thesis
      using ph none by (simp add: tr map_add_def)
  next
    case False
    with that l show ?thesis
      by (simp add: pr tr ledger_def map_add_def split: option.splits)
  qed
  moreover have q: "queue s' = queue s"
    by (simp add: s' taskDone_def Let_def)
  moreover have "holders s' = holders s"
    unfolding holders_def w q tr by simp
  ultimately show ?thesis
    using l unfolding ledger_def w f tr
    by (simp add: pr)
next
  case (Finally h)
  assume l: "ledger s" and st: "step ev s = Some s'"
  from st Finally obtain i where i: "find_chain h Settled (chains s) = Some i"
    and s': "s' = chainFinally i s"
    by (auto split: if_splits)
  from find_chain_Some [OF i] have il: "i < length (chains s)"
    and ci: "handle (fst (chains s ! i)) = h" "snd (chains s ! i) = Settled"
    by simp_all
  obtain e where e: "chains s ! i = (e, Settled)" "handle e = h"
    using ci by (cases "chains s ! i") auto
  from il obtain xs ys where xy: "chains s = xs @ (e, Settled) # ys" "length xs = i"
    by (rule chain_split) (simp add: e)
  let ?s1 = "s \<lparr>chains := take i (chains s) @ drop (Suc i) (chains s), running := running s - 1\<rparr>"
  have ch: "chains ?s1 = xs @ ys"
    using xy by auto
  have "mset (finishing ?s1) \<subseteq># mset (finishing s)"
    by (simp add: finishing_def ch xy)
  moreover have "working ?s1 = working s"
    by (simp add: working_def ch xy)
  moreover from this have "holders ?s1 = holders s"
    by (simp add: holders_def)
  ultimately have "ledger ?s1"
    using l by (auto simp: ledger_def intro: subset_mset.order_trans)
  from ledger_process [OF this] show ?thesis
    by (simp add: s' chainFinally_def Let_def)
qed

lemma trace_checkEmpty: "\<exists>xs. trace (checkEmpty s) = trace s @ xs"
  by (simp add: checkEmpty_def forEach_def invoke_def split: list.splits)

lemma trace_process: "\<exists>xs. trace (process s) = trace s @ xs"
  by (rule process_effect [of s]) simp

lemma step_trace: "step ev s = Some s' \<Longrightarrow> \<exists>xs. trace s' = trace s @ xs"
proof (cases ev)
  case (Add t prio)
  assume "step ev s = Some s'"
  then show ?thesis
    using Add trace_process [of "admitted t prio s"] by (auto simp: add_admitted)
next
  case Start
  assume "step ev s = Some s'"
  then show ?thesis
    using Start trace_process [of "s \<lparr>paused := False\<rparr>"] by (auto simp: start_def)
next
  case Pause
  assume "step ev s = Some s'"
  then show ?thesis
    using Pause by (auto simp: pause_def)
next
  case Clear
  assume "step ev s = Some s'"
  then show ?thesis
    using Clear by (auto simp: clear_def)
next
  case (OnEmpty c)
  assume "step ev s = Some s'"
  then show ?thesis
    using OnEmpty trace_checkEmpty [of "s \<lparr>emptyCallbacks := emptyCallbacks s @ [c]\<rparr>"]
    by (auto simp: onEmpty_def Let_def)
next
  case (TaskDone h out)
  assume "step ev s = Some s'"
  then show ?thesis
    using TaskDone by (auto simp: taskDone_def Let_def split: if_splits)
next
  case (Finally h)
  assume "step ev s = Some s'"
  with Finally obtain i where s': "s' = chainFinally i s"
    by (auto split: if_splits)
  let ?s1 = "s \<lparr>chains := take i (chains s) @ drop (Suc i) (chains s), running := running s - 1\<rparr>"
  obtain xs where "trace (process ?s1) = trace s @ xs"
    using trace_process [of ?s1] by auto
  moreover obtain ys where "trace (checkEmpty (process ?s1)) = trace (process ?s1) @ ys"
    using trace_checkEmpty by blast
  ultimately show ?thesis
    by (simp add: s' chainFinally_def Let_def)
next
  case Return
  assume "step ev s = Some s'"
  then show ?thesis
    using Return by (auto simp: invoke_def split: list.splits)
next
  case Throw
  assume "step ev s = Some s'"
  then show ?thesis
    using Throw by (auto split: list.splits)
qed

lemma run_trace: "run evs s = Some s' \<Longrightarrow> \<exists>xs. trace s' = trace s @ xs"
proof (induction evs arbitrary: s)
  case Nil
  then show ?case by simp
next
  case (Cons ev evs)
  then obtain s1 where 1: "step ev s = Some s1" and 2: "run evs s1 = Some s'"
    by (auto split: option.splits)
  from step_trace [OF 1] Cons.IH [OF 2] show ?case
    by auto
qed

lemma not_Working [simp]: "ph \<noteq> Working \<longleftrightarrow> ph = Settled"
  by (cases ph) simp_all

lemma set_handles_in:
  "set (map (handle \<circ> fst) cs) = set (handles_in Working cs) \<union> set (handles_in Settled cs)"
  by (induction cs) auto

subsection \<open>A handle that waits or runs can be settled\<close>

























text \<open>
  Claim C7. \<open>clear()\<close> leaves the backlog empty and does not touch the running
  count, the chains or the promises. Whatever happens afterwards, an entry that
  was in the backlog when \<open>clear()\<close> was called is never in the backlog again,
  is never dispatched and never has a chain, and its handle is never settled:
  the promise stays pending.
\<close>

theorem clear_discards_backlog:
  assumes "run evs (constructor opts) = Some s" and "e \<in> set (queue s)"
    and "run evs' (clear s) = Some s'"
  shows "size_get (clear s) = 0 \<and>
         running (clear s) = running s \<and>
         chains (clear s) = chains s \<and>
         promises (clear s) = promises s \<and>
         e \<notin> set (queue s') \<and>
         e \<notin> set (dispatched (trace s')) \<and>
         e \<notin> fst ` set (chains s') \<and>
         handle e \<notin> fst ` set (settled (trace s')) \<and>
         promises s' ! handle e = Pending"
proof -
  have "ledger (constructor opts)"
    by (simp add: ledger_def holders_def working_def finishing_def constructor_def)
  with assms(1) have "ledger s"
    by (rule run_invariant) (rule step_ledger)
  then have "ledger (clear s)"
    using step_ledger [of s Clear "clear s"] by simp
  with assms(3) have l: "ledger s'"
    by (rule run_invariant) (rule step_ledger)
  from run_trace [OF assms(3)] obtain xs where "trace s' = trace s @ map Discard (queue s) @ xs"
    by (auto simp: clear_def)
  with assms(2) have d: "handle e \<in> set (map handle (discarded (trace s')))"
    by simp
  from ledger_distinct [OF l] d
  have q: "handle e \<notin> set (map handle (queue s'))" and w: "handle e \<notin> set (working s')"
    and t: "handle e \<notin> fst ` set (settled (trace s'))" and n: "handle e < length (promises s')"
    by auto
  from l have "set (map handle (dispatched (trace s'))) =
      set (working s') \<union> set (map fst (settled (trace s')))"
    by (metis ledger_def mset_eq_setD set_mset_union set_mset_mset)
  with w t have dp: "handle e \<notin> set (map handle (dispatched (trace s')))"
    by simp
  from l have "set (finishing s') \<subseteq> set (map fst (settled (trace s')))"
    by (metis ledger_def set_mset_mono set_mset_mset)
  with t have f: "handle e \<notin> set (finishing s')"
    by auto
  have "set (map (handle \<circ> fst) (chains s')) = set (working s') \<union> set (finishing s')"
    by (simp only: working_def finishing_def set_handles_in)
  with w f have c: "e \<notin> fst ` set (chains s')"
    by auto
  from t have "map_of (settled (trace s')) (handle e) = None"
    by (simp add: map_of_eq_None_iff)
  with l n have p: "promises s' ! handle e = Pending"
    by (simp add: ledger_def promise_of_def)
  from q dp c t p show ?thesis
    by (auto simp: clear_def size_get_def)
qed

theorem clear_discards_backlog_witness:
  "let s = \<lparr>concurrency = 1, autoStart = True,
            queue = [\<lparr>task = 2, priority = 1, handle = 1\<rparr>,
                     \<lparr>task = 3, priority = 1, handle = 2\<rparr>],
            running = 1, paused = False, emptyCallbacks = [],
            promises = [Pending, Pending, Pending],
            chains = [(\<lparr>task = 1, priority = 1, handle = 0\<rparr>, Working)],
            frames = [], trace = [Dispatch \<lparr>task = 1, priority = 1, handle = 0\<rparr>]\<rparr>;
       s' = \<lparr>concurrency = 1, autoStart = True, queue = [], running = 0,
            paused = False, emptyCallbacks = [],
            promises = [Fulfilled 4, Pending, Pending], chains = [], frames = [],
            trace = [Dispatch \<lparr>task = 1, priority = 1, handle = 0\<rparr>,
                     Discard \<lparr>task = 2, priority = 1, handle = 1\<rparr>,
                     Discard \<lparr>task = 3, priority = 1, handle = 2\<rparr>,
                     Settle 0 (Result 4)]\<rparr>;
       e = \<lparr>task = 2, priority = 1, handle = 1\<rparr>
   in run [Add 1 None, Add 2 None, Add 3 None] (constructor \<lparr>concurrency_opt = Some 1, autoStart_opt = None\<rparr>) = Some s \<and>
      e \<in> set (queue s) \<and>
      run [TaskDone 0 (Result 4), Finally 0, Start] (clear s) = Some s' \<and>
      size_get (clear s) = 0 \<and> chains (clear s) = chains s \<and>
      e \<notin> set (dispatched (trace s')) \<and>
      handle e \<notin> fst ` set (settled (trace s')) \<and>
      promises s' ! handle e = Pending"
proof -
  let ?s = "\<lparr>concurrency = 1, autoStart = True,
            queue = [\<lparr>task = 2, priority = 1, handle = 1\<rparr>,
                     \<lparr>task = 3, priority = 1, handle = 2\<rparr>],
            running = 1, paused = False, emptyCallbacks = [],
            promises = [Pending, Pending, Pending],
            chains = [(\<lparr>task = 1, priority = 1, handle = 0\<rparr>, Working)],
            frames = [], trace = [Dispatch \<lparr>task = 1, priority = 1, handle = 0\<rparr>]\<rparr>"
  let ?s' = "\<lparr>concurrency = 1, autoStart = True, queue = [], running = 0,
            paused = False, emptyCallbacks = [],
            promises = [Fulfilled 4, Pending, Pending], chains = [], frames = [],
            trace = [Dispatch \<lparr>task = 1, priority = 1, handle = 0\<rparr>,
                     Discard \<lparr>task = 2, priority = 1, handle = 1\<rparr>,
                     Discard \<lparr>task = 3, priority = 1, handle = 2\<rparr>,
                     Settle 0 (Result 4)]\<rparr>"
  let ?e = "\<lparr>task = 2, priority = 1, handle = 1\<rparr>"
  have r: "run [Add 1 None, Add 2 None, Add 3 None] (constructor \<lparr>concurrency_opt = Some 1, autoStart_opt = None\<rparr>) = Some ?s"
    by code_simp
  have m: "?e \<in> set (queue ?s)"
    by simp
  have r': "run [TaskDone 0 (Result 4), Finally 0, Start] (clear ?s) = Some ?s'"
    by code_simp
  from clear_discards_backlog [OF r m r'] r m r' show ?thesis
    unfolding Let_def by blast
qed

section \<open>Failure of a task\<close>

lemma ignoring_fields [simp]:
  "concurrency (ignoring h s) = concurrency s"
  "autoStart (ignoring h s) = autoStart s"
  "queue (ignoring h s) = queue s"
  "running (ignoring h s) = running s"
  "paused (ignoring h s) = paused s"
  "emptyCallbacks (ignoring h s) = emptyCallbacks s"
  "chains (ignoring h s) = chains s"
  "frames (ignoring h s) = frames s"
  "promises (ignoring h s) = (promises s)[h := Pending]"
  "trace (ignoring h s) = filter (\<lambda>x. \<not> about h x) (trace s)"
  by (simp_all add: ignoring_def)

lemma ignoring_idem [simp]: "ignoring h (ignoring h s) = ignoring h s"
  by (simp add: ignoring_def)

lemma filter_about_Dispatch [simp]: "filter (\<lambda>x. \<not> about h x) (map Dispatch es) = map Dispatch es"
  by (induction es) simp_all

lemma filter_about_Discard [simp]: "filter (\<lambda>x. \<not> about h x) (map Discard es) = map Discard es"
  by (induction es) simp_all

lemma filter_about_Drop [simp]: "filter (\<lambda>x. \<not> about h x) (map Drop cs) = map Drop cs"
  by (induction cs) simp_all

lemma ignoring_process: "ignoring h (process (ignoring h s)) = ignoring h (process s)"
  by (simp add: process_def process_loop_result process_result_def slots_def ignoring_def)

lemma ignoring_process_commute: "ignoring h (process s) = process (ignoring h s)"
  by (simp add: process_def process_loop_result process_result_def slots_def ignoring_def)

lemma ignoring_checkEmpty_commute: "ignoring h (checkEmpty s) = checkEmpty (ignoring h s)"
  by (simp add: checkEmpty_def forEach_def invoke_def ignoring_def size_get_def pending_def
      split: list.splits)

lemma ignoring_add: "ignoring h (snd (add t prio (ignoring h s))) = ignoring h (snd (add t prio s))"
proof -
  have "ignoring h (admitted t prio (ignoring h s)) = ignoring h (admitted t prio s)"
    by (simp add: admitted_def entry_of_def ignoring_def list_update_append list_update_beyond)
  moreover have "ignoring h (process (admitted t prio (ignoring h s))) = ignoring h (process (admitted t prio s))"
    using calculation by (metis ignoring_process_commute)
  ultimately show ?thesis
    by (simp add: add_admitted)
qed

lemma ignoring_taskDone: "ignoring h (taskDone i out (ignoring h s)) = ignoring h (taskDone i out s)"
  by (cases "handle (fst (chains s ! i)) = h")
    (simp_all add: taskDone_def Let_def ignoring_def list_update_swap)

lemma ignoring_update:
  "ignoring h (s \<lparr>paused := p\<rparr>) = (ignoring h s) \<lparr>paused := p\<rparr>"
  "ignoring h (s \<lparr>emptyCallbacks := c\<rparr>) = (ignoring h s) \<lparr>emptyCallbacks := c\<rparr>"
  "ignoring h (s \<lparr>chains := cs, running := r\<rparr>) = (ignoring h s) \<lparr>chains := cs, running := r\<rparr>"
  by (simp_all add: ignoring_def)

lemma ignoring_chainFinally:
  "ignoring h (chainFinally i (ignoring h s)) = ignoring h (chainFinally i s)"
proof -
  have "chainFinally i (ignoring h s) = ignoring h (chainFinally i s)"
    by (simp add: chainFinally_def Let_def ignoring_checkEmpty_commute ignoring_process_commute
        ignoring_update)
  then show ?thesis by simp
qed

lemma step_ignoring: "map_option (ignoring h) (step ev (ignoring h s)) = map_option (ignoring h) (step ev s)"
proof (cases ev)
  case (Add t prio)
  then show ?thesis by (simp add: ignoring_add)
next
  case Start
  have "start (ignoring h s) = ignoring h (start s)"
    by (simp add: start_def ignoring_process_commute ignoring_update)
  with Start show ?thesis by simp
next
  case Pause
  then show ?thesis by (simp add: pause_def ignoring_def)
next
  case Clear
  then show ?thesis by (simp add: clear_def ignoring_def)
next
  case (OnEmpty c)
  have "onEmpty c (ignoring h s) = ignoring h (onEmpty c s)"
    by (simp add: onEmpty_def Let_def ignoring_checkEmpty_commute ignoring_update)
  with OnEmpty show ?thesis by simp
next
  case (TaskDone k out)
  then show ?thesis
    by (cases "find_chain k Working (chains s)") (simp_all add: ignoring_taskDone)
next
  case (Finally k)
  then show ?thesis
    by (cases "find_chain k Settled (chains s)") (simp_all add: ignoring_chainFinally)
next
  case Return
  then show ?thesis
    by (simp add: invoke_def ignoring_def size_get_def pending_def split: list.splits)
next
  case Throw
  then show ?thesis
    by (simp add: ignoring_def split: list.splits)
qed

lemma run_ignoring: "map_option (ignoring h) (run evs (ignoring h s)) = map_option (ignoring h) (run evs s)"
proof (induction evs arbitrary: s)
  case Nil
  then show ?case by simp
next
  case (Cons ev evs)
  show ?case
  proof (cases "step ev s")
    case None
    with step_ignoring [of h ev s] show ?thesis by simp
  next
    case (Some a)
    with step_ignoring [of h ev s] obtain b where b: "step ev (ignoring h s) = Some b" "ignoring h b = ignoring h a"
      by auto
    have "map_option (ignoring h) (run evs b) = map_option (ignoring h) (run evs (ignoring h b))"
      by (simp add: Cons.IH)
    also have "\<dots> = map_option (ignoring h) (run evs a)"
      by (simp add: b Cons.IH)
    finally show ?thesis
      by (simp add: Some b)
  qed
qed

lemma ignoring_taskDone_outcome:
  "handle (fst (chains s ! i)) = h \<Longrightarrow>
   ignoring h (taskDone i out s) = ignoring h (taskDone i out' s)"
  by (simp add: taskDone_def Let_def ignoring_def)

text \<open>
  Claim C4. When the task of a dispatched entry fails, the reaction of its chain
  rejects the handle of that entry and nothing else: the other promises, the
  backlog, the running count, the flags, the waiting callbacks and the other
  chains are as before. The \<open>finally\<close> reaction of the chain is enabled, and
  from there on every run goes exactly as it would have gone had the task
  succeeded, apart from the content of that one promise: the same entries are
  dispatched in the same order and settle with the same outcomes.
\<close>

theorem task_failure_is_contained:
  assumes "run evs (constructor opts) = Some s"
    and "step (TaskDone h (Failure err)) s = Some sf"
  shows "h < length (promises s) \<and> promises s ! h = Pending \<and>
         promises sf = (promises s)[h := Rejected err] \<and>
         trace sf = trace s @ [Settle h (Failure err)] \<and>
         queue sf = queue s \<and> running sf = running s \<and> paused sf = paused s \<and>
         emptyCallbacks sf = emptyCallbacks s \<and> frames sf = frames s \<and>
         map fst (chains sf) = map fst (chains s) \<and>
         (\<forall>c \<in> set (chains s). handle (fst c) \<noteq> h \<longrightarrow> c \<in> set (chains sf)) \<and>
         step (Finally h) sf \<noteq> None \<and>
         map_option (ignoring h) (run (TaskDone h (Failure err) # evs') s) =
         map_option (ignoring h) (run (TaskDone h (Result v) # evs') s)"
proof -
  have "ledger (constructor opts)"
    by (simp add: ledger_def holders_def working_def finishing_def constructor_def)
  with assms(1) have l: "ledger s"
    by (rule run_invariant) (rule step_ledger)
  from assms(2) obtain i where fr: "frames s = []"
    and i: "find_chain h Working (chains s) = Some i"
    and sf: "sf = taskDone i (Failure err) s"
    by (auto split: if_splits)
  from find_chain_Some [OF i] have il: "i < length (chains s)"
    and ci: "handle (fst (chains s ! i)) = h" "snd (chains s ! i) = Working"
    by simp_all
  obtain e where e: "chains s ! i = (e, Working)" "handle e = h"
    using ci by (cases "chains s ! i") auto
  from il obtain xs ys where xy: "chains s = xs @ (e, Working) # ys" "length xs = i"
    by (rule chain_split) (simp add: e)
  have ch: "chains sf = xs @ (e, Settled) # ys"
    using xy by (auto simp: sf taskDone_def Let_def)
  have "h \<in> set (working s)"
    by (simp add: working_def xy e)
  with ledger_distinct [OF l] have hT: "h \<notin> fst ` set (settled (trace s))"
    and hn: "h < length (promises s)"
    by auto
  then have "map_of (settled (trace s)) h = None"
    by (simp add: map_of_eq_None_iff)
  with l hn have pend: "promises s ! h = Pending"
    by (simp add: ledger_def promise_of_def)
  then have 1: "promises sf = (promises s)[h := Rejected err]"
    by (simp add: sf taskDone_def Let_def e settle_def)
  have 2: "trace sf = trace s @ [Settle h (Failure err)]" "queue sf = queue s"
    "running sf = running s" "paused sf = paused s" "emptyCallbacks sf = emptyCallbacks s"
    "frames sf = frames s"
    by (simp_all add: sf taskDone_def Let_def e)
  have 3: "map fst (chains sf) = map fst (chains s)"
    by (simp add: ch xy)
  have 4: "\<forall>c \<in> set (chains s). handle (fst c) \<noteq> h \<longrightarrow> c \<in> set (chains sf)"
    using e by (auto simp: ch xy)
  have "find_chain h Settled (chains sf) \<noteq> None"
    unfolding find_chain_None ch using e by force
  then have 5: "step (Finally h) sf \<noteq> None"
    using fr 2 by auto
  let ?ss = "taskDone i (Result v) s"
  have "map_option (ignoring h) (run evs' sf) = map_option (ignoring h) (run evs' (ignoring h sf))"
    by (simp add: run_ignoring)
  also have "ignoring h sf = ignoring h ?ss"
    unfolding sf using ci(1) by (rule ignoring_taskDone_outcome)
  also have "map_option (ignoring h) (run evs' (ignoring h ?ss)) =
      map_option (ignoring h) (run evs' ?ss)"
    by (simp add: run_ignoring)
  finally have 6: "map_option (ignoring h) (run (TaskDone h (Failure err) # evs') s) =
      map_option (ignoring h) (run (TaskDone h (Result v) # evs') s)"
    using assms(2) fr i by (simp add: sf)
  from hn pend 1 2 3 4 5 6 show ?thesis
    by blast
qed

theorem task_failure_is_contained_witness:
  "let s = \<lparr>concurrency = 1, autoStart = True,
            queue = [\<lparr>task = 2, priority = 1, handle = 1\<rparr>], running = 1,
            paused = False, emptyCallbacks = [], promises = [Pending, Pending],
            chains = [(\<lparr>task = 1, priority = 1, handle = 0\<rparr>, Working)],
            frames = [], trace = [Dispatch \<lparr>task = 1, priority = 1, handle = 0\<rparr>]\<rparr>;
       sf = \<lparr>concurrency = 1, autoStart = True,
            queue = [\<lparr>task = 2, priority = 1, handle = 1\<rparr>], running = 1,
            paused = False, emptyCallbacks = [], promises = [Rejected 9, Pending],
            chains = [(\<lparr>task = 1, priority = 1, handle = 0\<rparr>, Settled)],
            frames = [],
            trace = [Dispatch \<lparr>task = 1, priority = 1, handle = 0\<rparr>,
                     Settle 0 (Failure 9)]\<rparr>
   in run [Add 1 None, Add 2 None] (constructor \<lparr>concurrency_opt = None, autoStart_opt = None\<rparr>) = Some s \<and>
      step (TaskDone 0 (Failure 9)) s = Some sf \<and>
      promises sf = (promises s)[0 := Rejected 9] \<and>
      queue sf = queue s \<and> running sf = running s \<and>
      step (Finally 0) sf \<noteq> None \<and>
      map_option (ignoring 0)
        (run (TaskDone 0 (Failure 9) # [Finally 0, TaskDone 1 (Result 5), Finally 1]) s) =
      map_option (ignoring 0)
        (run (TaskDone 0 (Result 4) # [Finally 0, TaskDone 1 (Result 5), Finally 1]) s) \<and>
      map_option promises
        (run (TaskDone 0 (Failure 9) # [Finally 0, TaskDone 1 (Result 5), Finally 1]) s) =
      Some [Rejected 9, Fulfilled 5]"
proof -
  let ?s = "\<lparr>concurrency = 1, autoStart = True,
            queue = [\<lparr>task = 2, priority = 1, handle = 1\<rparr>], running = 1,
            paused = False, emptyCallbacks = [], promises = [Pending, Pending],
            chains = [(\<lparr>task = 1, priority = 1, handle = 0\<rparr>, Working)],
            frames = [], trace = [Dispatch \<lparr>task = 1, priority = 1, handle = 0\<rparr>]\<rparr>"
  let ?sf = "\<lparr>concurrency = 1, autoStart = True,
            queue = [\<lparr>task = 2, priority = 1, handle = 1\<rparr>], running = 1,
            paused = False, emptyCallbacks = [], promises = [Rejected 9, Pending],
            chains = [(\<lparr>task = 1, priority = 1, handle = 0\<rparr>, Settled)],
            frames = [],
            trace = [Dispatch \<lparr>task = 1, priority = 1, handle = 0\<rparr>,
                     Settle 0 (Failure 9)]\<rparr>"
  have r: "run [Add 1 None, Add 2 None] (constructor \<lparr>concurrency_opt = None, autoStart_opt = None\<rparr>) = Some ?s"
    by code_simp
  have st: "step (TaskDone 0 (Failure 9)) ?s = Some ?sf"
    by code_simp
  have fin: "map_option promises
        (run (TaskDone 0 (Failure 9) # [Finally 0, TaskDone 1 (Result 5), Finally 1]) ?s) =
      Some [Rejected 9, Fulfilled 5]"
    by code_simp
  from task_failure_is_contained
    [OF r st, of "[Finally 0, TaskDone 1 (Result 5), Finally 1]" 4] r st fin
  show ?thesis
    unfolding Let_def by blast
qed

section \<open>Drain callbacks\<close>

lemma invoked_append [simp]: "invoked (xs @ ys) = invoked xs @ invoked ys"
  by (induction xs rule: invoked.induct) simp_all

lemma invoked_map_Dispatch [simp]: "invoked (map Dispatch es) = []"
  by (induction es) simp_all

lemma invoked_map_Discard [simp]: "invoked (map Discard es) = []"
  by (induction es) simp_all

lemma invoked_map_Drop [simp]: "invoked (map Drop cs) = []"
  by (induction cs) simp_all

lemma dropped_append [simp]: "dropped (xs @ ys) = dropped xs @ dropped ys"
  by (induction xs rule: dropped.induct) simp_all

lemma dropped_map_Dispatch [simp]: "dropped (map Dispatch es) = []"
  by (induction es) simp_all

lemma dropped_map_Discard [simp]: "dropped (map Discard es) = []"
  by (induction es) simp_all

lemma dropped_map_Drop [simp]: "dropped (map Drop cs) = cs"
  by (induction cs) simp_all

lemma dropped_process [simp]: "dropped (trace (process s)) = dropped (trace s)"
  by (rule process_effect [of s]) simp

lemma invoked_process [simp]: "invoked (trace (process s)) = invoked (trace s)"
  by (rule process_effect [of s]) simp

lemma emptyCallbacks_process: "emptyCallbacks (process s) = emptyCallbacks s"
  by simp

lemma tokens_process [simp]: "tokens (process s) = tokens s"
  by (simp add: tokens_def)

lemma checkEmpty_drained:
  "queue s = [] \<Longrightarrow> running s = 0 \<Longrightarrow> emptyCallbacks s = c # cs \<Longrightarrow>
   checkEmpty s = s \<lparr> emptyCallbacks := [], trace := trace s @ [Invoke c 0 0],
                       frames := cs # frames s \<rparr>"
  by (simp add: checkEmpty_def forEach_def invoke_def size_get_def pending_def)

lemma checkEmpty_idle:
  "\<not> (queue s = [] \<and> running s = 0) \<or> emptyCallbacks s = [] \<Longrightarrow> checkEmpty s = s"
  by (auto simp: checkEmpty_def forEach_def)

lemma tokens_checkEmpty [simp]: "tokens (checkEmpty s) = tokens s"
proof (cases "queue s = [] \<and> running s = 0 \<and> emptyCallbacks s \<noteq> []")
  case True
  then obtain c cs where "emptyCallbacks s = c # cs"
    by (cases "emptyCallbacks s") auto
  with True show ?thesis
    by (simp add: checkEmpty_drained tokens_def)
next
  case False
  then show ?thesis
    by (auto simp: checkEmpty_idle)
qed

lemma step_tokens: "step ev s = Some s' \<Longrightarrow> tokens s' = tokens s + mset (registrations [ev])"
proof (cases ev)
  case (Add t prio)
  assume "step ev s = Some s'"
  moreover have "tokens (admitted t prio s) = tokens s"
    by (simp add: tokens_def)
  ultimately show ?thesis
    using Add by (auto simp: add_admitted)
next
  case Start
  assume "step ev s = Some s'"
  moreover have "tokens (s \<lparr>paused := False\<rparr>) = tokens s"
    by (simp add: tokens_def)
  ultimately show ?thesis
    using Start by (auto simp: start_def)
next
  case (OnEmpty c)
  assume "step ev s = Some s'"
  moreover have "tokens (s \<lparr>emptyCallbacks := emptyCallbacks s @ [c]\<rparr>) = tokens s + {#c#}"
    by (simp add: tokens_def)
  ultimately show ?thesis
    using OnEmpty by (auto simp: onEmpty_def Let_def)
next
  case (Finally h)
  assume "step ev s = Some s'"
  with Finally obtain i where s': "s' = chainFinally i s"
    by (auto split: if_splits)
  have "tokens (s \<lparr>chains := take i (chains s) @ drop (Suc i) (chains s),
      running := running s - 1\<rparr>) = tokens s"
    by (simp add: tokens_def)
  then show ?thesis
    using Finally by (simp add: s' chainFinally_def Let_def)
qed (auto simp: pause_def clear_def taskDone_def tokens_def Let_def invoke_def
      split: if_splits list.splits)

lemma registrations_Cons: "registrations (ev # evs) = registrations [ev] @ registrations evs"
  by (cases ev) simp_all

lemma run_tokens: "run evs s = Some s' \<Longrightarrow> tokens s' = tokens s + mset (registrations evs)"
proof (induction evs arbitrary: s)
  case Nil
  then show ?case by simp
next
  case (Cons ev evs)
  then obtain s1 where 1: "step ev s = Some s1" and 2: "run evs s1 = Some s'"
    by (auto split: option.splits)
  from step_tokens [OF 1] Cons.IH [OF 2] show ?case
    by (subst registrations_Cons) simp
qed

lemma checkEmpty_invoked:
  "invoked (trace (checkEmpty s)) = invoked (trace s) \<or>
   (\<exists>c. invoked (trace (checkEmpty s)) = invoked (trace s) @ [(c, 0, 0)] \<and>
        queue s = [] \<and> running s = 0)"
proof (cases "queue s = [] \<and> running s = 0 \<and> emptyCallbacks s \<noteq> []")
  case True
  then obtain c cs where "emptyCallbacks s = c # cs"
    by (cases "emptyCallbacks s") auto
  with True show ?thesis
    by (simp add: checkEmpty_drained)
next
  case False
  then show ?thesis
    by (auto simp: checkEmpty_idle)
qed

lemma step_invoked:
  assumes "step ev s = Some s'" and "ev \<noteq> Return"
  shows "invoked (trace s') = invoked (trace s) \<or>
         (\<exists>c. invoked (trace s') = invoked (trace s) @ [(c, 0, 0)] \<and>
              queue s' = [] \<and> running s' = 0)"
proof (cases ev)
  case (Add t prio)
  with assms(1) show ?thesis
    by (cases "autoStart s \<and> \<not> paused s") (auto simp: add_admitted)
next
  case Start
  with assms(1) show ?thesis by (auto simp: start_def)
next
  case Pause
  with assms(1) show ?thesis by (auto simp: pause_def)
next
  case Clear
  with assms(1) show ?thesis by (auto simp: clear_def)
next
  case (OnEmpty c)
  with assms(1) show ?thesis
    using checkEmpty_invoked [of "s \<lparr>emptyCallbacks := emptyCallbacks s @ [c]\<rparr>"]
    by (cases "queue s = [] \<and> running s = 0") (auto simp: onEmpty_def Let_def)
next
  case (TaskDone h out)
  with assms(1) show ?thesis by (auto simp: taskDone_def Let_def split: if_splits)
next
  case (Finally h)
  with assms(1) obtain i where s': "s' = chainFinally i s"
    by (auto split: if_splits)
  show ?thesis
    using checkEmpty_invoked [of "process (s \<lparr>chains := take i (chains s) @ drop (Suc i) (chains s),
      running := running s - 1\<rparr>)"]
    by (simp add: s' chainFinally_def Let_def)
next
  case Return
  with assms(2) show ?thesis by simp
next
  case Throw
  with assms(1) show ?thesis by (auto split: list.splits)
qed

lemma run_invariant_if:
  assumes "run evs s = Some s'" and "P s" and "\<forall>ev \<in> set evs. Q ev"
    and "\<And>ev a b. Q ev \<Longrightarrow> P a \<Longrightarrow> step ev a = Some b \<Longrightarrow> P b"
  shows "P s'"
  using assms(1,2,3)
proof (induction evs arbitrary: s)
  case Nil
  then show ?case by simp
next
  case (Cons ev evs)
  then show ?case
    by (auto split: option.splits intro: assms(4))
qed

lemma process_counted: "counted s \<Longrightarrow> counted (process s)"
  by (simp add: counted_def process_def process_loop_result process_result_def slots_def)

lemma step_counted: "counted s \<Longrightarrow> step ev s = Some s' \<Longrightarrow> counted s'"
proof (cases ev)
  case (Add t prio)
  assume "counted s" "step ev s = Some s'"
  moreover from this have "counted (admitted t prio s)"
    by (simp add: counted_def)
  ultimately show ?thesis
    using Add process_counted [of "admitted t prio s"] by (auto simp: add_admitted)
next
  case Start
  assume "counted s" "step ev s = Some s'"
  then show ?thesis
    using Start process_counted [of "s \<lparr>paused := False\<rparr>"]
    by (auto simp: start_def counted_def)
next
  case (Finally h)
  assume c: "counted s" and st: "step ev s = Some s'"
  from st Finally obtain i where i: "find_chain h Settled (chains s) = Some i"
    and s': "s' = chainFinally i s"
    by (auto split: if_splits)
  from find_chain_Some [OF i] have "i < length (chains s)" by simp
  with c have "counted (s \<lparr>chains := take i (chains s) @ drop (Suc i) (chains s),
      running := running s - 1\<rparr>)"
    by (auto simp: counted_def)
  from process_counted [OF this] show ?thesis
    by (simp add: s' chainFinally_def Let_def counted_def)
qed (auto simp: pause_def clear_def onEmpty_def taskDone_def counted_def Let_def invoke_def
      split: if_splits list.splits)

lemma process_drained: "queue s = [] \<Longrightarrow> process s = s"
  by (simp add: process_def process_loop.simps [of s])

lemma step_undisturbed:
  assumes "undisturbed s" and "step ev s = Some s'"
    and "case ev of Add t prio \<Rightarrow> frames s = [] | _ \<Rightarrow> True"
  shows "undisturbed s'"
proof (cases ev)
  case (Add t prio)
  with assms show ?thesis
    by (cases "autoStart s \<and> \<not> paused s") (auto simp: add_admitted undisturbed_def)
next
  case Start
  show ?thesis
  proof (cases "frames s = []")
    case True
    with assms Start show ?thesis
      by (auto simp: start_def undisturbed_def)
  next
    case False
    with assms(1) have "queue s = []"
      by (simp add: undisturbed_def)
    then have "start s = s \<lparr>paused := False\<rparr>"
      by (simp add: start_def process_drained)
    with assms Start show ?thesis
      by (auto simp: undisturbed_def)
  qed
next
  case Pause
  with assms show ?thesis by (auto simp: pause_def undisturbed_def)
next
  case Clear
  with assms show ?thesis by (auto simp: clear_def undisturbed_def)
next
  case (OnEmpty c)
  let ?s1 = "s \<lparr>emptyCallbacks := emptyCallbacks s @ [c]\<rparr>"
  show ?thesis
  proof (cases "queue s = [] \<and> running s = 0")
    case True
    obtain x xs where x: "emptyCallbacks ?s1 = x # xs"
      by (cases "emptyCallbacks s") auto
    from True have "checkEmpty ?s1 = ?s1 \<lparr> emptyCallbacks := [],
        trace := trace ?s1 @ [Invoke x 0 0], frames := xs # frames ?s1 \<rparr>"
      using x by (intro checkEmpty_drained) simp_all
    with True assms OnEmpty show ?thesis
      by (auto simp: onEmpty_def Let_def undisturbed_def)
  next
    case False
    with assms OnEmpty show ?thesis
      by (auto simp: onEmpty_def Let_def undisturbed_def)
  qed
next
  case (TaskDone h out)
  with assms show ?thesis
    by (auto simp: taskDone_def Let_def undisturbed_def split: if_splits)
next
  case (Finally h)
  with assms(2) obtain i where fr: "frames s = []" and s': "s' = chainFinally i s"
    by (auto split: if_splits)
  let ?s3 = "process (s \<lparr>chains := take i (chains s) @ drop (Suc i) (chains s),
      running := running s - 1\<rparr>)"
  have s3: "s' = checkEmpty ?s3"
    by (simp add: s' chainFinally_def Let_def)
  have i3: "invoked (trace ?s3) = invoked (trace s)" "frames ?s3 = []"
    by (simp_all add: fr)
  show ?thesis
  proof (cases "queue ?s3 = [] \<and> running ?s3 = 0 \<and> emptyCallbacks ?s3 \<noteq> []")
    case True
    then obtain x xs where "emptyCallbacks ?s3 = x # xs"
      by (cases "emptyCallbacks ?s3") auto
    with True have "checkEmpty ?s3 = ?s3 \<lparr> emptyCallbacks := [],
        trace := trace ?s3 @ [Invoke x 0 0], frames := xs # frames ?s3 \<rparr>"
      by (intro checkEmpty_drained) simp_all
    with True assms(1) i3 show ?thesis
      by (simp add: s3 undisturbed_def)
  next
    case False
    then have "checkEmpty ?s3 = ?s3"
      by (intro checkEmpty_idle) auto
    with assms(1) i3 show ?thesis
      by (simp add: s3 undisturbed_def)
  qed
next
  case Return
  with assms show ?thesis
    by (auto simp: undisturbed_def invoke_def size_get_def pending_def split: list.splits)
next
  case Throw
  with assms show ?thesis
    by (auto simp: undisturbed_def split: list.splits)
qed

lemma run_undisturbed:
  "undisturbed s \<Longrightarrow> run evs s = Some s' \<Longrightarrow> calm evs s \<Longrightarrow> undisturbed s'"
proof (induction evs arbitrary: s)
  case Nil
  then show ?case by simp
next
  case (Cons ev evs)
  from Cons.prems(2) obtain s1 where 1: "step ev s = Some s1" and 2: "run evs s1 = Some s'"
    by (auto split: option.splits)
  from Cons.prems(3) 1 have 3: "case ev of Add t prio \<Rightarrow> frames s = [] | _ \<Rightarrow> True"
    and 4: "calm evs s1"
    by simp_all
  from step_undisturbed [OF Cons.prems(1) 1 3] 2 4 show ?case
    by (rule Cons.IH)
qed

lemma step_served:
  assumes "served s" and "step ev s = Some s'" and "ev \<noteq> Clear"
  shows "served s'"
proof -
  from assms(1,2) have c: "counted s'"
    by (auto simp: served_def dest: step_counted)
  from assms(1) have r: "0 \<le> running s"
    by (simp add: served_def counted_def)
  have "emptyCallbacks s' = []" if d: "queue s' = [] \<and> running s' = 0"
  proof (cases ev)
    case (Add t prio)
    let ?a = "admitted t prio s"
    obtain k where k: "queue (process ?a) = drop k (queue ?a)"
      "running (process ?a) = running ?a + int k"
      by (rule process_effect)
    have "length (queue ?a) = Suc (length (queue s))"
      by simp
    then have ne: "queue ?a \<noteq> []"
      by (metis length_0_conv nat.distinct(1))
    have "\<not> (queue (process ?a) = [] \<and> running (process ?a) = 0)"
    proof
      assume a: "queue (process ?a) = [] \<and> running (process ?a) = 0"
      with k(2) r have "k = 0" by simp
      with k(1) a ne show False by simp
    qed
    with Add assms(2) d ne show ?thesis
      by (cases "autoStart s \<and> \<not> paused s") (simp_all add: add_admitted)
  next
    case Start
    obtain k where k: "queue (process (s \<lparr>paused := False\<rparr>)) = drop k (queue s)"
      "running (process (s \<lparr>paused := False\<rparr>)) = running s + int k"
      using process_effect [of "s \<lparr>paused := False\<rparr>"] by auto
    from Start assms(2) d have "queue (process (s \<lparr>paused := False\<rparr>)) = [] \<and>
        running (process (s \<lparr>paused := False\<rparr>)) = 0"
      by (simp add: start_def)
    with k r have "k = 0 \<and> drop k (queue s) = [] \<and> running s = 0"
      by simp
    then have "k = 0 \<and> queue s = [] \<and> running s = 0"
      by auto
    with Start assms(1,2) show ?thesis
      by (auto simp: start_def served_def)
  next
    case Pause
    with assms(1,2) d show ?thesis by (auto simp: pause_def served_def)
  next
    case Clear
    with assms(3) show ?thesis by simp
  next
    case (OnEmpty cb)
    let ?s1 = "s \<lparr>emptyCallbacks := emptyCallbacks s @ [cb]\<rparr>"
    from OnEmpty assms(2) d have dr: "queue s = [] \<and> running s = 0"
      by (auto simp: onEmpty_def Let_def split: if_splits)
    obtain x xs where x: "emptyCallbacks ?s1 = x # xs"
      by (cases "emptyCallbacks s") auto
    from dr have "checkEmpty ?s1 = ?s1 \<lparr> emptyCallbacks := [],
        trace := trace ?s1 @ [Invoke x 0 0], frames := xs # frames ?s1 \<rparr>"
      using x by (intro checkEmpty_drained) simp_all
    with dr OnEmpty assms(2) show ?thesis
      by (auto simp: onEmpty_def Let_def)
  next
    case (TaskDone h out)
    with assms(1,2) d show ?thesis
      by (auto simp: taskDone_def Let_def served_def split: if_splits)
  next
    case (Finally h)
    with assms(2) obtain i where s': "s' = chainFinally i s"
      by (auto split: if_splits)
    let ?s3 = "process (s \<lparr>chains := take i (chains s) @ drop (Suc i) (chains s),
      running := running s - 1\<rparr>)"
    have s3: "s' = checkEmpty ?s3"
      by (simp add: s' chainFinally_def Let_def)
    show ?thesis
    proof (cases "emptyCallbacks ?s3")
      case Nil
      then show ?thesis by (simp add: s3 checkEmpty_idle)
    next
      case (Cons x xs)
      with d have "checkEmpty ?s3 = ?s3 \<lparr> emptyCallbacks := [],
        trace := trace ?s3 @ [Invoke x 0 0], frames := xs # frames ?s3 \<rparr>"
        by (intro checkEmpty_drained) (simp_all add: s3)
      then show ?thesis by (simp add: s3)
    qed
  next
    case Return
    with assms(1,2) d show ?thesis
      by (auto simp: served_def invoke_def split: list.splits)
  next
    case Throw
    with assms(1,2) d show ?thesis
      by (auto simp: served_def split: list.splits)
  qed
  with c show ?thesis
    by (simp add: served_def)
qed

lemma step_dropped: "step ev s = Some s' \<Longrightarrow> ev \<noteq> Throw \<Longrightarrow> dropped (trace s') = dropped (trace s)"
proof (cases ev)
  case (Add t prio)
  assume "step ev s = Some s'"
  with Add show ?thesis
    by (cases "autoStart s \<and> \<not> paused s") (auto simp: add_admitted)
next
  case (OnEmpty c)
  assume "step ev s = Some s'"
  with OnEmpty show ?thesis
    by (auto simp: onEmpty_def Let_def checkEmpty_def forEach_def invoke_def split: list.splits)
next
  case (Finally h)
  assume "step ev s = Some s'"
  with Finally obtain i where s': "s' = chainFinally i s"
    by (auto split: if_splits)
  show ?thesis
    by (simp add: s' chainFinally_def Let_def checkEmpty_def forEach_def invoke_def
        split: list.splits)
qed (auto simp: start_def pause_def clear_def taskDone_def Let_def invoke_def
      split: if_splits list.splits)

lemma returns_invoke_frames:
  "\<exists>n s'. run (replicate n Return) s = Some s' \<and> frames s' = [] \<and>
      map fst (invoked (trace s')) = map fst (invoked (trace s)) @ concat (frames s)"
proof (induction "length (concat (frames s)) + length (frames s)" arbitrary: s rule: less_induct)
  case less
  show ?case
  proof (cases "frames s")
    case Nil
    then have "run (replicate 0 Return) s = Some s \<and> frames s = [] \<and>
        map fst (invoked (trace s)) = map fst (invoked (trace s)) @ concat (frames s)"
      by simp
    then show ?thesis by blast
  next
    case (Cons f outer)
    obtain s1 where s1: "step Return s = Some s1"
      and m: "length (concat (frames s1)) + length (frames s1) <
              length (concat (frames s)) + length (frames s)"
      and i: "map fst (invoked (trace s1)) @ concat (frames s1) =
              map fst (invoked (trace s)) @ concat (frames s)"
      using Cons by (cases f) (auto simp: invoke_def)
    from less [OF m] obtain n s' where "run (replicate n Return) s1 = Some s'"
      and "frames s' = []"
      and "map fst (invoked (trace s')) = map fst (invoked (trace s1)) @ concat (frames s1)"
      by blast
    with s1 i have "run (replicate (Suc n) Return) s = Some s' \<and> frames s' = [] \<and>
        map fst (invoked (trace s')) = map fst (invoked (trace s)) @ concat (frames s)"
      by simp
    then show ?thesis by blast
  qed
qed

text \<open>
  Claim C6, as stated, fails. \<open>_checkEmpty\<close> tests the condition once and then
  invokes every waiting callback. Here a task is running and two callbacks are
  registered; when the task has finished the first callback is invoked with the
  queue drained, it adds a task, which is dispatched at once, and the second
  callback is invoked while \<open>pending\<close> reads 1.
\<close>

theorem drain_callback_invoked_while_running_counterexample:
  "map_option trace
     (run [Add 7 None, OnEmpty 1, OnEmpty 2, TaskDone 0 (Result 0), Finally 0,
           Add 8 None, Return]
        (constructor \<lparr>concurrency_opt = None, autoStart_opt = None\<rparr>)) =
   Some [Dispatch \<lparr>task = 7, priority = 1, handle = 0\<rparr>, Settle 0 (Result 0),
         Invoke 1 0 0,
         Dispatch \<lparr>task = 8, priority = 1, handle = 1\<rparr>,
         Invoke 2 0 1]"
  by code_simp

text \<open>
  A callback can also be left waiting on a drained queue: \<open>clear()\<close> empties the
  backlog without the check. Nothing is running here, nothing waits, and the
  callback has not been invoked.
\<close>

lemma callback_left_waiting_by_clear:
  "run [Add 7 None, OnEmpty 1, Clear, Start]
     (constructor \<lparr>concurrency_opt = None, autoStart_opt = Some False\<rparr>) =
   Some \<lparr>concurrency = 1, autoStart = False, queue = [], running = 0,
          paused = False, emptyCallbacks = [1], promises = [Pending],
          chains = [], frames = [],
          trace = [Discard \<lparr>task = 7, priority = 1, handle = 0\<rparr>]\<rparr>"
  by code_simp

text \<open>
  A callback is also lost when one ahead of it in its batch throws: the first
  callback is invoked and throws, the second is never invoked and is no longer
  registered.
\<close>

lemma callback_lost_to_exception:
  "run [Add 7 None, OnEmpty 1, OnEmpty 2, TaskDone 0 (Result 0), Finally 0, Throw]
     (constructor \<lparr>concurrency_opt = None, autoStart_opt = None\<rparr>) =
   Some \<lparr>concurrency = 1, autoStart = True, queue = [], running = 0,
          paused = False, emptyCallbacks = [], promises = [Fulfilled 0],
          chains = [], frames = [],
          trace = [Dispatch \<lparr>task = 7, priority = 1, handle = 0\<rparr>,
                   Settle 0 (Result 0), Invoke 1 0 0, Drop 2]\<rparr>"
  by code_simp

text \<open>
  Claim C6, amended. In every state a run can reach, each registration of a
  callback is in exactly one place: waiting, in a \<open>forEach\<close> loop that has not
  reached it, invoked, or lost to an exception of a callback ahead of it; so a
  callback is invoked at most once per registration. As long as no drain
  callback calls \<open>add\<close>, every callback is invoked with the backlog empty and
  the running count 0. As long as \<open>clear()\<close> is not called, no callback waits on
  a drained queue, and if moreover no callback throws, then on a drained queue
  with no callback running every callback has been invoked exactly once per
  registration. The callbacks of a batch are all invoked, in order of
  registration, when each of them returns.

  Step by step: a step other than the return of a callback invokes at most one
  callback, the first of a batch, and only with the backlog empty and the
  running count 0. \<open>onEmpty\<close> on a drained queue starts the batch of all waiting
  callbacks, the new one last, before it returns; on a queue that is not drained
  it only registers. The \<open>finally\<close> of a task that leaves the queue drained starts
  the batch of the waiting callbacks. When a callback returns the next one of its
  batch is invoked without the condition being tested again. When a callback
  throws the rest of its batch is lost. \<open>clear()\<close> invokes nothing and keeps the
  waiting callbacks.
\<close>

theorem drain_callbacks_fire_once:
  assumes "run evs (constructor opts) = Some s" and "step ev s = Some s'"
  shows "count_list (map fst (invoked (trace s))) c + count_list (emptyCallbacks s) c +
           count_list (concat (frames s)) c + count_list (dropped (trace s)) c =
           count_list (registrations evs) c \<and>
         (calm evs (constructor opts) \<longrightarrow> (\<forall>x \<in> set (invoked (trace s)). snd x = (0, 0))) \<and>
         (Clear \<notin> set evs \<and> queue s = [] \<and> running s = 0 \<longrightarrow> emptyCallbacks s = []) \<and>
         (Clear \<notin> set evs \<and> Throw \<notin> set evs \<and>
          queue s = [] \<and> running s = 0 \<and> frames s = [] \<longrightarrow>
            count_list (map fst (invoked (trace s))) c = count_list (registrations evs) c) \<and>
         (\<exists>n s''. run (replicate n Return) s = Some s'' \<and> frames s'' = [] \<and>
            map fst (invoked (trace s'')) = map fst (invoked (trace s)) @ concat (frames s)) \<and>
         (ev \<noteq> Return \<longrightarrow>
            invoked (trace s') = invoked (trace s) \<or>
            (\<exists>c'. invoked (trace s') = invoked (trace s) @ [(c', 0, 0)] \<and>
                 queue s' = [] \<and> running s' = 0)) \<and>
         (ev = OnEmpty cb \<and> queue s = [] \<and> running s = 0 \<longrightarrow>
            emptyCallbacks s' = [] \<and>
            invoked (trace s') = invoked (trace s) @ [(hd (emptyCallbacks s @ [cb]), 0, 0)] \<and>
            frames s' = tl (emptyCallbacks s @ [cb]) # frames s) \<and>
         (ev = OnEmpty cb \<and> \<not> (queue s = [] \<and> running s = 0) \<longrightarrow>
            s' = s \<lparr>emptyCallbacks := emptyCallbacks s @ [cb]\<rparr>) \<and>
         (ev = Finally h \<and> queue s' = [] \<and> running s' = 0 \<and> emptyCallbacks s \<noteq> [] \<longrightarrow>
            emptyCallbacks s' = [] \<and>
            invoked (trace s') = invoked (trace s) @ [(hd (emptyCallbacks s), 0, 0)] \<and>
            frames s' = [tl (emptyCallbacks s)]) \<and>
         (ev = Return \<and> frames s = (c' # rest) # outer \<longrightarrow>
            invoked (trace s') = invoked (trace s) @ [(c', size_get s, pending s)] \<and>
            frames s' = rest # outer) \<and>
         (ev = Throw \<and> frames s = rest # outer \<longrightarrow>
            invoked (trace s') = invoked (trace s) \<and>
            dropped (trace s') = dropped (trace s) @ rest \<and> frames s' = outer) \<and>
         (ev = Clear \<longrightarrow>
            invoked (trace s') = invoked (trace s) \<and> emptyCallbacks s' = emptyCallbacks s)"
proof -
  have "tokens s = tokens (constructor opts) + mset (registrations evs)"
    using assms(1) by (rule run_tokens)
  then have "tokens s = mset (registrations evs)"
    by (simp add: tokens_def constructor_def)
  then have "mset (map fst (invoked (trace s)) @ emptyCallbacks s @ concat (frames s) @
      dropped (trace s)) = mset (registrations evs)"
    by (simp add: tokens_def ac_simps)
  then have "count_list (map fst (invoked (trace s)) @ emptyCallbacks s @ concat (frames s) @
      dropped (trace s)) c = count_list (registrations evs) c"
    by (metis count_mset)
  then have 1: "count_list (map fst (invoked (trace s))) c + count_list (emptyCallbacks s) c +
           count_list (concat (frames s)) c + count_list (dropped (trace s)) c =
           count_list (registrations evs) c"
    by simp
  have 8: "\<forall>x \<in> set (invoked (trace s)). snd x = (0, 0)" if "calm evs (constructor opts)"
  proof -
    have "undisturbed (constructor opts)"
      by (simp add: undisturbed_def constructor_def)
    from this assms(1) that have "undisturbed s"
      by (rule run_undisturbed)
    then show ?thesis
      by (simp add: undisturbed_def)
  qed
  have 9: "emptyCallbacks s = []" if a: "Clear \<notin> set evs \<and> queue s = [] \<and> running s = 0"
  proof -
    have "served (constructor opts)"
      by (simp add: served_def counted_def constructor_def)
    with assms(1) have "served s"
    proof (rule run_invariant_if)
      show "\<forall>ev \<in> set evs. ev \<noteq> Clear"
        using a by auto
    qed (rule step_served)
    with a show ?thesis
      by (simp add: served_def)
  qed
  have 10: "count_list (map fst (invoked (trace s))) c = count_list (registrations evs) c"
    if a: "Clear \<notin> set evs \<and> Throw \<notin> set evs \<and>
          queue s = [] \<and> running s = 0 \<and> frames s = []"
  proof -
    have "dropped (trace (constructor opts)) = []"
      by (simp add: constructor_def)
    with assms(1) have "dropped (trace s) = []"
    proof (rule run_invariant_if)
      show "\<forall>ev \<in> set evs. ev \<noteq> Throw"
        using a by auto
    qed (simp add: step_dropped)
    with 1 9 a show ?thesis
      by simp
  qed
  have 11: "\<exists>n s''. run (replicate n Return) s = Some s'' \<and> frames s'' = [] \<and>
            map fst (invoked (trace s'')) = map fst (invoked (trace s)) @ concat (frames s)"
    by (rule returns_invoke_frames)
  have 2: "invoked (trace s') = invoked (trace s) \<or>
            (\<exists>c'. invoked (trace s') = invoked (trace s) @ [(c', 0, 0)] \<and>
                 queue s' = [] \<and> running s' = 0)" if "ev \<noteq> Return"
    using assms(2) that by (rule step_invoked)
  have 3: "emptyCallbacks s' = [] \<and>
            invoked (trace s') = invoked (trace s) @ [(hd (emptyCallbacks s @ [cb]), 0, 0)] \<and>
            frames s' = tl (emptyCallbacks s @ [cb]) # frames s"
    if "ev = OnEmpty cb \<and> queue s = [] \<and> running s = 0"
  proof -
    obtain x xs where x: "emptyCallbacks s @ [cb] = x # xs"
      by (cases "emptyCallbacks s @ [cb]") auto
    let ?s1 = "s \<lparr>emptyCallbacks := emptyCallbacks s @ [cb]\<rparr>"
    have "s' = checkEmpty ?s1"
      using that assms(2) by (simp add: onEmpty_def Let_def)
    also have "\<dots> = ?s1 \<lparr> emptyCallbacks := [], trace := trace ?s1 @ [Invoke x 0 0],
                       frames := xs # frames ?s1 \<rparr>"
      using that x by (intro checkEmpty_drained) simp_all
    finally show ?thesis
      by (simp add: x)
  qed
  have 4: "s' = s \<lparr>emptyCallbacks := emptyCallbacks s @ [cb]\<rparr>"
    if "ev = OnEmpty cb \<and> \<not> (queue s = [] \<and> running s = 0)"
    using that assms(2) by (auto simp: onEmpty_def Let_def)
  have 5: "emptyCallbacks s' = [] \<and>
            invoked (trace s') = invoked (trace s) @ [(hd (emptyCallbacks s), 0, 0)] \<and>
            frames s' = [tl (emptyCallbacks s)]"
    if a: "ev = Finally h \<and> queue s' = [] \<and> running s' = 0 \<and> emptyCallbacks s \<noteq> []"
  proof -
    from a assms(2) obtain i where fr: "frames s = []" and s': "s' = chainFinally i s"
      by (auto split: if_splits)
    let ?s3 = "process (s \<lparr>chains := take i (chains s) @ drop (Suc i) (chains s),
      running := running s - 1\<rparr>)"
    have s3: "s' = checkEmpty ?s3"
      by (simp add: s' chainFinally_def Let_def)
    obtain x xs where x: "emptyCallbacks s = x # xs"
      using a by (cases "emptyCallbacks s") auto
    from a have "queue ?s3 = [] \<and> running ?s3 = 0"
      by (simp add: s3)
    then have "checkEmpty ?s3 = ?s3 \<lparr> emptyCallbacks := [], trace := trace ?s3 @ [Invoke x 0 0],
                       frames := xs # frames ?s3 \<rparr>"
      using x by (intro checkEmpty_drained) simp_all
    then show ?thesis
      by (simp add: s3 x fr)
  qed
  have 6: "invoked (trace s') = invoked (trace s) @ [(c', size_get s, pending s)] \<and>
            frames s' = rest # outer"
    if "ev = Return \<and> frames s = (c' # rest) # outer"
    using that assms(2) by (auto simp: invoke_def)
  have 7: "invoked (trace s') = invoked (trace s) \<and> emptyCallbacks s' = emptyCallbacks s"
    if "ev = Clear"
    using that assms(2) by (auto simp: clear_def)
  have 12: "invoked (trace s') = invoked (trace s) \<and>
            dropped (trace s') = dropped (trace s) @ rest \<and> frames s' = outer"
    if "ev = Throw \<and> frames s = rest # outer"
    using that assms(2) by auto
  from 1 2 3 4 5 6 7 8 9 10 11 12 show ?thesis
    by blast
qed

theorem drain_callbacks_fire_once_witness:
  "let evs = [Add 7 None, OnEmpty 1, OnEmpty 2, TaskDone 0 (Result 0), Finally 0, Return, Return];
       s = \<lparr>concurrency = 1, autoStart = True, queue = [], running = 0,
            paused = False, emptyCallbacks = [], promises = [Fulfilled 0],
            chains = [], frames = [],
            trace = [Dispatch \<lparr>task = 7, priority = 1, handle = 0\<rparr>,
                     Settle 0 (Result 0), Invoke 1 0 0, Invoke 2 0 0]\<rparr>;
       s' = \<lparr>concurrency = 1, autoStart = True, queue = [], running = 0,
            paused = False, emptyCallbacks = [], promises = [Fulfilled 0],
            chains = [], frames = [] # [],
            trace = [Dispatch \<lparr>task = 7, priority = 1, handle = 0\<rparr>,
                     Settle 0 (Result 0), Invoke 1 0 0, Invoke 2 0 0, Invoke 3 0 0]\<rparr>
   in run evs (constructor \<lparr>concurrency_opt = None, autoStart_opt = None\<rparr>) = Some s \<and>
      step (OnEmpty 3) s = Some s' \<and>
      calm evs (constructor \<lparr>concurrency_opt = None, autoStart_opt = None\<rparr>) \<and>
      Clear \<notin> set evs \<and> Throw \<notin> set evs \<and>
      queue s = [] \<and> running s = 0 \<and> frames s = [] \<and>
      (\<forall>x \<in> set (invoked (trace s)). snd x = (0, 0)) \<and>
      emptyCallbacks s = [] \<and>
      count_list (map fst (invoked (trace s))) 2 = count_list (registrations evs) 2 \<and>
      emptyCallbacks s' = [] \<and>
      invoked (trace s') = invoked (trace s) @ [(hd (emptyCallbacks s @ [3]), 0, 0)] \<and>
      frames s' = tl (emptyCallbacks s @ [3]) # frames s"
proof -
  let ?evs = "[Add 7 None, OnEmpty 1, OnEmpty 2, TaskDone 0 (Result 0), Finally 0, Return, Return]"
  let ?s = "\<lparr>concurrency = 1, autoStart = True, queue = [], running = 0,
            paused = False, emptyCallbacks = [], promises = [Fulfilled 0],
            chains = [], frames = [],
            trace = [Dispatch \<lparr>task = 7, priority = 1, handle = 0\<rparr>,
                     Settle 0 (Result 0), Invoke 1 0 0, Invoke 2 0 0]\<rparr>"
  let ?s' = "\<lparr>concurrency = 1, autoStart = True, queue = [], running = 0,
            paused = False, emptyCallbacks = [], promises = [Fulfilled 0],
            chains = [], frames = [] # [],
            trace = [Dispatch \<lparr>task = 7, priority = 1, handle = 0\<rparr>,
                     Settle 0 (Result 0), Invoke 1 0 0, Invoke 2 0 0, Invoke 3 0 0]\<rparr>"
  have r: "run ?evs (constructor \<lparr>concurrency_opt = None, autoStart_opt = None\<rparr>) = Some ?s"
    by code_simp
  have st: "step (OnEmpty 3) ?s = Some ?s'"
    by code_simp
  have q: "calm ?evs (constructor \<lparr>concurrency_opt = None, autoStart_opt = None\<rparr>)"
    by code_simp
  have h: "Clear \<notin> set ?evs" "Throw \<notin> set ?evs"
    "queue ?s = []" "running ?s = 0" "frames ?s = []"
    by simp_all
  from drain_callbacks_fire_once [OF r st, where c = 2 and cb = 3] r st q h
  show ?thesis
    unfolding Let_def by blast
qed

end
